theory Spec2Isabelle
  imports Main
begin

section \<open>Values, errors and capabilities\<close>

text \<open>
  A key is Go's \<^verbatim>\<open>Key\<close>, a slice of string segments. The type and its
  \<^verbatim>\<open>Prepend\<close> method are not part of the sources at hand.
\<close>

type_synonym key = "string list"

text \<open>
  Modelled from the spec: \<^verbatim>\<open>Key.Prepend(other)\<close> is missing from the sources; the
  specification says it inserts the segments of \<open>other\<close> before the receiver's own
  segments, in place, producing \<open>other + self\<close>. The first argument is \<open>other\<close>, the
  second the receiver; the result is the receiver's new content.
\<close>

definition Prepend :: "key \<Rightarrow> key \<Rightarrow> key" where
  "Prepend other self = other @ self"

text \<open>
  A dynamic Go value (\<^verbatim>\<open>any\<close>, or the content of an interface variable): the nil
  interface, a scalar without any capability, an object of a type defined outside the prefix
  layer (identified by a reference), or one of the three wrapper structs of the prefix layer.
  The wrapper structs are values, not pointers, so a wrapper cannot contain itself: the
  nesting of wrappers is always finite, as in a datatype.
\<close>

datatype val =
    VNil
  | Scalar int
  | Obj nat
  | VPR PrefixedReader
  | VPW PrefixedWriter
  | VP PrefixedReader PrefixedWriter
and PrefixedReader = PrefixedReader (rKey: key) (R: val)
and PrefixedWriter = PrefixedWriter (wKey: key) (W: val)

text \<open>
  Errors: the two sentinels, an opaque error of a backing object, and the structured
  \<^verbatim>\<open>&Error{Op, Key, Got, Want, Err}\<close>. \<open>Got\<close> and \<open>Want\<close> are fields of an interface
  type that holds any value; a field the source leaves out is the nil interface.
\<close>

datatype 'g error =
    ErrNotFound
  | ErrUnexpectedType
  | ErrOther string
  | Error (Op: string) (EKey: key) (Got: 'g) (Want: 'g) (Err: "'g error")

text \<open>
  The source writes \<^verbatim>\<open>Want: Reader(nil)\<close> and \<^verbatim>\<open>Want: Writer(nil)\<close>. Both are
  conversions of \<^verbatim>\<open>nil\<close> to an interface type, and both are assigned to the same
  field: what the field then holds is the nil interface, which carries no type and is
  equal to the \<open>Want\<close> of an error that sets none.
\<close>

definition Reader_nil :: val where
  [simp]: "Reader_nil = VNil"

definition Writer_nil :: val where
  [simp]: "Writer_nil = VNil"

text \<open>
  Modelled from the spec: matching an error against the not-found sentinel unwraps nested
  causes (the \<^verbatim>\<open>Error\<close> type and its unwrapping are missing from the sources).
\<close>

fun is_not_found :: "'g error \<Rightarrow> bool" where
  "is_not_found ErrNotFound = True"
| "is_not_found (Error op k g w e) = is_not_found e"
| "is_not_found _ = False"

datatype capability = Reader | SafeReader | Writer | SafeWriter

text \<open>The type hint of \<^verbatim>\<open>Put\<close> (Go's \<^verbatim>\<open>Type\<close>, declared outside the sources at hand).\<close>

datatype Type = TypeMap | TypeSlice | TypeOther nat

text \<open>
  What a call does: it returns, it panics (a method called on the nil interface), or it
  exhausts the call stack (Go aborts on unbounded recursion).
\<close>

datatype 'a outcome = Return 'a | Panic | Overflow

type_synonym ('s, 'a) action = "'s \<Rightarrow> 'a outcome \<times> 's"

definition ret :: "'a \<Rightarrow> ('s, 'a) action" where
  "ret x st = (Return x, st)"

definition andThen :: "('s, 'a) action \<Rightarrow> ('a \<Rightarrow> ('s, 'b) action) \<Rightarrow> ('s, 'b) action" where
  "andThen m f st =
     (case m st of
        (Return x, st') \<Rightarrow> f x st'
      | (Panic, st') \<Rightarrow> (Panic, st')
      | (Overflow, st') \<Rightarrow> (Overflow, st'))"

text \<open>
  Dynamic dispatch. \<open>has a c\<close> says whether the type of object \<open>a\<close> has the method set of
  capability \<open>c\<close>; the \<open>call\<close> fields are the interface method calls
  \<^verbatim>\<open>x.Get(ctx, key)\<close>, \<^verbatim>\<open>x.SafeGet(ctx, key)\<close>, ... on a dynamic value \<open>x\<close>, as
  transformers of the state \<open>'s\<close> of the backing objects. The context argument is passed
  through unchanged by every function of the source and is left out.
\<close>

record 's methods =
  has :: "nat \<Rightarrow> capability \<Rightarrow> bool"
  callGet :: "val \<Rightarrow> string \<Rightarrow> ('s, val \<times> bool) action"
  callSafeGet :: "val \<Rightarrow> string \<Rightarrow> ('s, val \<times> val error option) action"
  callList :: "val \<Rightarrow> ('s, string list) action"
  callDel :: "val \<Rightarrow> string \<Rightarrow> ('s, bool) action"
  callSet :: "val \<Rightarrow> string \<Rightarrow> val \<Rightarrow> ('s, bool) action"
  callPut :: "val \<Rightarrow> string \<Rightarrow> Type \<Rightarrow> ('s, val) action"
  callSafeDel :: "val \<Rightarrow> string \<Rightarrow> ('s, val error option) action"
  callSafeSet :: "val \<Rightarrow> string \<Rightarrow> val \<Rightarrow> ('s, bool \<times> val error option) action"
  callSafePut :: "val \<Rightarrow> string \<Rightarrow> Type \<Rightarrow> ('s, val \<times> val error option) action"

text \<open>
  The type assertion \<^verbatim>\<open>x.(C)\<close>: \<^verbatim>\<open>PrefixedReader\<close> has the methods of Reader and
  SafeReader, \<^verbatim>\<open>PrefixedWriter\<close> those of Writer and SafeWriter, \<^verbatim>\<open>Prefixed\<close> embeds
  both; the nil interface and scalars have none.
\<close>

fun implements :: "'s methods \<Rightarrow> capability \<Rightarrow> val \<Rightarrow> bool" where
  "implements D c VNil = False"
| "implements D c (Scalar n) = False"
| "implements D c (Obj a) = has D a c"
| "implements D c (VPR pr) = (c = Reader \<or> c = SafeReader)"
| "implements D c (VPW pw) = (c = Writer \<or> c = SafeWriter)"
| "implements D c (VP pr pw) = True"

section \<open>PrefixedReader\<close>

text \<open>
  The loop of \<^verbatim>\<open>PrefixedReader.base\<close>, \<^verbatim>\<open>for i, key := range pr.Key\<close>: the first
  argument is what is left of the range, \<open>K\<close> is \<^verbatim>\<open>pr.Key\<close>, \<open>i\<close> the index and \<open>r\<close> the
  current reader. An early return of the loop body is \<open>Inl\<close>.
\<close>

primrec base_range ::
  "string list \<Rightarrow> 's methods \<Rightarrow> string \<Rightarrow> key \<Rightarrow> nat \<Rightarrow> val \<Rightarrow> ('s, val \<times> val error option) action"
where
  "base_range [] D op K i r = ret (r, None)"
| "base_range (key # rest) D op K i r =
     andThen
       (if implements D SafeReader r then
          andThen (callSafeGet D r key) (\<lambda>(v, err).
            case err of
              Some e \<Rightarrow> ret (Inl (Error op (take (i + 1) K) r VNil e))
            | None \<Rightarrow> ret (Inr v))
        else
          andThen (callGet D r key) (\<lambda>(v, ok).
            if \<not> ok then ret (Inl (Error op (take (i + 1) K) r VNil ErrNotFound))
            else ret (Inr v)))
       (\<lambda>x. case x of
          Inl e \<Rightarrow> ret (VNil, Some e)
        | Inr v \<Rightarrow>
            if \<not> implements D Reader v then
              ret (VNil, Some (Error op (take (i + 1) K) v Reader_nil ErrUnexpectedType))
            else base_range rest D op K (i + 1) v)"

definition PrefixedReader_base ::
  "'s methods \<Rightarrow> string \<Rightarrow> PrefixedReader \<Rightarrow> ('s, val \<times> val error option) action" where
  "PrefixedReader_base D op pr = base_range (rKey pr) D op (rKey pr) 0 (R pr)"

definition PrefixedReader_SafeGet ::
  "'s methods \<Rightarrow> PrefixedReader \<Rightarrow> string \<Rightarrow> ('s, val \<times> val error option) action" where
  "PrefixedReader_SafeGet D pr key =
     andThen (PrefixedReader_base D ''Get'' pr) (\<lambda>(r, err).
       case err of
         Some e \<Rightarrow> ret (VNil, Some e)
       | None \<Rightarrow>
           if implements D SafeReader r then
             andThen (callSafeGet D r key) (\<lambda>(v, err).
               case err of
                 Some e \<Rightarrow> ret (VNil, Some (Error ''Get'' (rKey pr @ [key]) r VNil e))
               | None \<Rightarrow> ret (v, None))
           else
             andThen (callGet D r key) (\<lambda>(v, ok).
               if \<not> ok then ret (VNil, Some (Error ''Get'' (rKey pr @ [key]) r VNil ErrNotFound))
               else ret (v, None)))"

definition PrefixedReader_Get ::
  "'s methods \<Rightarrow> PrefixedReader \<Rightarrow> string \<Rightarrow> ('s, val \<times> bool) action" where
  "PrefixedReader_Get D pr key =
     andThen (PrefixedReader_SafeGet D pr key) (\<lambda>(v, err). ret (v, err = None))"

definition PrefixedReader_List :: "'s methods \<Rightarrow> PrefixedReader \<Rightarrow> ('s, string list) action" where
  "PrefixedReader_List D pr =
     andThen (PrefixedReader_base D ''List'' pr) (\<lambda>(r, err).
       case err of
         Some e \<Rightarrow> ret []
       | None \<Rightarrow> callList D r)"

text \<open>
  \<^verbatim>\<open>PrefixedReader.reader\<close>: the loop \<^verbatim>\<open>for i := 0; i < maxDepth; i++\<close> unwraps
  one layer per iteration; \<open>key\<close> is the local key that \<^verbatim>\<open>Prepend\<close> updates. The
  function returns the reader only and \<^verbatim>\<open>nil\<close> when the loop runs out.
\<close>

definition maxDepth :: nat where
  "maxDepth = 128"

function reader_loop :: "nat \<Rightarrow> PrefixedReader \<Rightarrow> key \<Rightarrow> val" where
  "reader_loop i pr key =
     (if i < maxDepth then
        (case R pr of
           VPR x \<Rightarrow> reader_loop (i + 1) x (Prepend (rKey x) key)
         | VP x y \<Rightarrow> reader_loop (i + 1) x (Prepend (rKey x) key)
         | _ \<Rightarrow> R pr)
      else VNil)"
  by pat_completeness auto
termination
  by (relation "measure (\<lambda>(i, pr, key). maxDepth - i)") auto

declare reader_loop.simps [simp del]

definition PrefixedReader_reader :: "PrefixedReader \<Rightarrow> val" where
  "PrefixedReader_reader pr = reader_loop 0 pr (rKey pr)"

section \<open>PrefixedWriter\<close>

text \<open>\<^verbatim>\<open>PrefixedWriter.writer\<close>: the same loop, returning the writer and the key.\<close>

function writer_loop :: "nat \<Rightarrow> PrefixedWriter \<Rightarrow> key \<Rightarrow> val \<times> key" where
  "writer_loop i pw key =
     (if i < maxDepth then
        (case W pw of
           VPW x \<Rightarrow> writer_loop (i + 1) x (Prepend (wKey x) key)
         | VP y x \<Rightarrow> writer_loop (i + 1) x (Prepend (wKey x) key)
         | _ \<Rightarrow> (W pw, key))
      else (VNil, []))"
  by pat_completeness auto
termination
  by (relation "measure (\<lambda>(i, pw, key). maxDepth - i)") auto

declare writer_loop.simps [simp del]

definition PrefixedWriter_writer :: "PrefixedWriter \<Rightarrow> val \<times> key" where
  "PrefixedWriter_writer pw = writer_loop 0 pw (wKey pw)"

text \<open>\<^verbatim>\<open>PrefixedWriter.reader(op)\<close>; \<^verbatim>\<open>PrefixedReader{}\<close> is the zero struct.\<close>

definition PrefixedWriter_reader ::
  "'s methods \<Rightarrow> string \<Rightarrow> PrefixedWriter \<Rightarrow> PrefixedReader \<times> val error option" where
  "PrefixedWriter_reader D op pw =
     (case PrefixedWriter_writer pw of (w, key) \<Rightarrow>
        if \<not> implements D Reader w then
          (PrefixedReader [] VNil,
           Some (Error op (wKey pw) (W pw) Reader_nil ErrUnexpectedType))
        else (PrefixedReader key w, None))"

definition PrefixedWriter_SafeDel ::
  "'s methods \<Rightarrow> PrefixedWriter \<Rightarrow> string \<Rightarrow> ('s, val error option) action" where
  "PrefixedWriter_SafeDel D pw key =
     (case PrefixedWriter_reader D ''Del'' pw of
        (pr, Some e) \<Rightarrow> ret (Some e)
      | (pr, None) \<Rightarrow>
          andThen (PrefixedReader_base D ''Del'' pr) (\<lambda>(r, err).
            case err of
              Some e \<Rightarrow> ret (Some e)
            | None \<Rightarrow>
                if implements D SafeWriter r then
                  andThen (callSafeDel D r key) (\<lambda>err.
                    case err of
                      Some e \<Rightarrow> ret (Some (Error ''Del'' (wKey pw @ [key]) VNil VNil e))
                    | None \<Rightarrow> ret None)
                else if implements D Writer r then
                  andThen (callDel D r key) (\<lambda>ok.
                    if \<not> ok then
                      ret (Some (Error ''Del'' (wKey pw @ [key]) VNil VNil ErrNotFound))
                    else ret None)
                else
                  ret (Some (Error ''Del'' (wKey pw @ [key]) r Writer_nil ErrUnexpectedType))))"

definition PrefixedWriter_SafeSet ::
  "'s methods \<Rightarrow> PrefixedWriter \<Rightarrow> string \<Rightarrow> val \<Rightarrow> ('s, bool \<times> val error option) action" where
  "PrefixedWriter_SafeSet D pw key value =
     (case PrefixedWriter_reader D ''Set'' pw of
        (pr, Some e) \<Rightarrow> ret (False, Some e)
      | (pr, None) \<Rightarrow>
          andThen (PrefixedReader_base D ''Set'' pr) (\<lambda>(r, err).
            case err of
              Some e \<Rightarrow> ret (False, Some e)
            | None \<Rightarrow>
                if implements D SafeWriter r then
                  andThen (callSafeSet D r key value) (\<lambda>(ok, err).
                    case err of
                      Some e \<Rightarrow>
                        ret (False, Some (Error ''Set'' (wKey pw @ [key]) VNil VNil e))
                    | None \<Rightarrow> ret (ok, None))
                else if implements D Writer r then
                  andThen (callSet D r key value) (\<lambda>ok. ret (ok, None))
                else
                  ret (False,
                       Some (Error ''Set'' (wKey pw @ [key]) r Writer_nil ErrUnexpectedType))))"

text \<open>
  The loop of \<^verbatim>\<open>PrefixedWriter.SafePut\<close>, \<^verbatim>\<open>for i, key := range normkey\<close>: the first
  argument is what is left of the range, \<open>N\<close> is \<^verbatim>\<open>normkey\<close>, \<open>w\<close> the current writer.
\<close>

primrec put_range ::
  "string list \<Rightarrow> 's methods \<Rightarrow> Type \<Rightarrow> key \<Rightarrow> nat \<Rightarrow> val \<Rightarrow> ('s, val \<times> val error option) action"
where
  "put_range [] D hint N i w = ret (w, None)"
| "put_range (key # rest) D hint N i w =
     (if implements D SafeWriter w then
        andThen (callSafePut D w key hint) (\<lambda>(w', err).
          case err of
            Some e \<Rightarrow> ret (VNil, Some (Error ''Put'' (take (i + 1) N) w VNil e))
          | None \<Rightarrow> put_range rest D hint N (i + 1) w')
      else
        andThen (callPut D w key hint) (\<lambda>w'. put_range rest D hint N (i + 1) w'))"

definition PrefixedWriter_SafePut ::
  "'s methods \<Rightarrow> PrefixedWriter \<Rightarrow> string \<Rightarrow> Type \<Rightarrow> ('s, val \<times> val error option) action" where
  "PrefixedWriter_SafePut D pw key hint =
     (case PrefixedWriter_writer pw of (w, k) \<Rightarrow>
        let normkey = k @ [key] in put_range normkey D hint normkey 0 w)"

definition PrefixedWriter_Del :: "'s methods \<Rightarrow> PrefixedWriter \<Rightarrow> string \<Rightarrow> ('s, bool) action" where
  "PrefixedWriter_Del D pw key =
     andThen (PrefixedWriter_SafeDel D pw key) (\<lambda>err. ret (err = None))"

definition PrefixedWriter_Set ::
  "'s methods \<Rightarrow> PrefixedWriter \<Rightarrow> string \<Rightarrow> val \<Rightarrow> ('s, bool) action" where
  "PrefixedWriter_Set D pw key value =
     andThen (PrefixedWriter_SafeSet D pw key value) (\<lambda>(ok, err). ret ok)"

definition PrefixedWriter_Put ::
  "'s methods \<Rightarrow> PrefixedWriter \<Rightarrow> string \<Rightarrow> Type \<Rightarrow> ('s, val) action" where
  "PrefixedWriter_Put D pw key hint =
     andThen (PrefixedWriter_SafePut D pw key hint) (\<lambda>(w, err). ret w)"

section \<open>Method calls on dynamic values\<close>

text \<open>
  The objects defined outside the prefix layer: which capabilities the type of object \<open>a\<close>
  has, and what its methods do to the state of the backing store.
\<close>

record 's objects =
  caps :: "nat \<Rightarrow> capability \<Rightarrow> bool"
  objGet :: "nat \<Rightarrow> string \<Rightarrow> 's \<Rightarrow> (val \<times> bool) \<times> 's"
  objSafeGet :: "nat \<Rightarrow> string \<Rightarrow> 's \<Rightarrow> (val \<times> val error option) \<times> 's"
  objList :: "nat \<Rightarrow> 's \<Rightarrow> string list \<times> 's"
  objDel :: "nat \<Rightarrow> string \<Rightarrow> 's \<Rightarrow> bool \<times> 's"
  objSet :: "nat \<Rightarrow> string \<Rightarrow> val \<Rightarrow> 's \<Rightarrow> bool \<times> 's"
  objPut :: "nat \<Rightarrow> string \<Rightarrow> Type \<Rightarrow> 's \<Rightarrow> val \<times> 's"
  objSafeDel :: "nat \<Rightarrow> string \<Rightarrow> 's \<Rightarrow> val error option \<times> 's"
  objSafeSet :: "nat \<Rightarrow> string \<Rightarrow> val \<Rightarrow> 's \<Rightarrow> (bool \<times> val error option) \<times> 's"
  objSafePut :: "nat \<Rightarrow> string \<Rightarrow> Type \<Rightarrow> 's \<Rightarrow> (val \<times> val error option) \<times> 's"

definition returns :: "('s \<Rightarrow> 'a \<times> 's) \<Rightarrow> ('s, 'a) action" where
  "returns f st = (case f st of (x, st') \<Rightarrow> (Return x, st'))"

definition panic :: "('s, 'a) action" where
  "panic st = (Panic, st)"

definition overflow :: "('s, 'a) action" where
  "overflow st = (Overflow, st)"

text \<open>
  A method call on a dynamic value with \<open>d\<close> stack frames left: an outside object runs its
  own method, a wrapper runs the method of the prefix layer (a \<^verbatim>\<open>Prefixed\<close> promotes the
  methods of its two halves) with one frame less, and a call on the nil interface panics.
  Go's static types exclude a call on a value without the method; the model panics there
  too. Unbounded recursion is possible (a container that holds a wrapper of itself), so the
  depth is explicit.
\<close>

primrec dispatch :: "nat \<Rightarrow> 's objects \<Rightarrow> 's methods" where
  "dispatch 0 E =
     \<lparr> has = caps E,
       callGet = (\<lambda>v key. overflow),
       callSafeGet = (\<lambda>v key. overflow),
       callList = (\<lambda>v. overflow),
       callDel = (\<lambda>v key. overflow),
       callSet = (\<lambda>v key value. overflow),
       callPut = (\<lambda>v key hint. overflow),
       callSafeDel = (\<lambda>v key. overflow),
       callSafeSet = (\<lambda>v key value. overflow),
       callSafePut = (\<lambda>v key hint. overflow) \<rparr>"
| "dispatch (Suc d) E =
     \<lparr> has = caps E,
       callGet = (\<lambda>v key. case v of
           Obj a \<Rightarrow> if caps E a Reader then returns (objGet E a key) else panic
         | VPR pr \<Rightarrow> PrefixedReader_Get (dispatch d E) pr key
         | VP pr pw \<Rightarrow> PrefixedReader_Get (dispatch d E) pr key
         | _ \<Rightarrow> panic),
       callSafeGet = (\<lambda>v key. case v of
           Obj a \<Rightarrow> if caps E a SafeReader then returns (objSafeGet E a key) else panic
         | VPR pr \<Rightarrow> PrefixedReader_SafeGet (dispatch d E) pr key
         | VP pr pw \<Rightarrow> PrefixedReader_SafeGet (dispatch d E) pr key
         | _ \<Rightarrow> panic),
       callList = (\<lambda>v. case v of
           Obj a \<Rightarrow> if caps E a Reader then returns (objList E a) else panic
         | VPR pr \<Rightarrow> PrefixedReader_List (dispatch d E) pr
         | VP pr pw \<Rightarrow> PrefixedReader_List (dispatch d E) pr
         | _ \<Rightarrow> panic),
       callDel = (\<lambda>v key. case v of
           Obj a \<Rightarrow> if caps E a Writer then returns (objDel E a key) else panic
         | VPW pw \<Rightarrow> PrefixedWriter_Del (dispatch d E) pw key
         | VP pr pw \<Rightarrow> PrefixedWriter_Del (dispatch d E) pw key
         | _ \<Rightarrow> panic),
       callSet = (\<lambda>v key value. case v of
           Obj a \<Rightarrow> if caps E a Writer then returns (objSet E a key value) else panic
         | VPW pw \<Rightarrow> PrefixedWriter_Set (dispatch d E) pw key value
         | VP pr pw \<Rightarrow> PrefixedWriter_Set (dispatch d E) pw key value
         | _ \<Rightarrow> panic),
       callPut = (\<lambda>v key hint. case v of
           Obj a \<Rightarrow> if caps E a Writer then returns (objPut E a key hint) else panic
         | VPW pw \<Rightarrow> PrefixedWriter_Put (dispatch d E) pw key hint
         | VP pr pw \<Rightarrow> PrefixedWriter_Put (dispatch d E) pw key hint
         | _ \<Rightarrow> panic),
       callSafeDel = (\<lambda>v key. case v of
           Obj a \<Rightarrow> if caps E a SafeWriter then returns (objSafeDel E a key) else panic
         | VPW pw \<Rightarrow> PrefixedWriter_SafeDel (dispatch d E) pw key
         | VP pr pw \<Rightarrow> PrefixedWriter_SafeDel (dispatch d E) pw key
         | _ \<Rightarrow> panic),
       callSafeSet = (\<lambda>v key value. case v of
           Obj a \<Rightarrow> if caps E a SafeWriter then returns (objSafeSet E a key value) else panic
         | VPW pw \<Rightarrow> PrefixedWriter_SafeSet (dispatch d E) pw key value
         | VP pr pw \<Rightarrow> PrefixedWriter_SafeSet (dispatch d E) pw key value
         | _ \<Rightarrow> panic),
       callSafePut = (\<lambda>v key hint. case v of
           Obj a \<Rightarrow> if caps E a SafeWriter then returns (objSafePut E a key hint) else panic
         | VPW pw \<Rightarrow> PrefixedWriter_SafePut (dispatch d E) pw key hint
         | VP pr pw \<Rightarrow> PrefixedWriter_SafePut (dispatch d E) pw key hint
         | _ \<Rightarrow> panic) \<rparr>"

section \<open>The nesting of wrappers\<close>

text \<open>
  What flattening is meant to compute, by recursion on the nesting: the number of wrapper
  layers below a writer, the innermost writer that is not a wrapper, and the keys of the
  layers, innermost first. A \<^verbatim>\<open>Prefixed\<close> is entered through its writer half on the
  write side and through its reader half on the read side.
\<close>

fun wlayers :: "val \<Rightarrow> nat" where
  "wlayers (VPW (PrefixedWriter k w)) = Suc (wlayers w)"
| "wlayers (VP pr (PrefixedWriter k w)) = Suc (wlayers w)"
| "wlayers v = 0"

fun wbase :: "val \<Rightarrow> val" where
  "wbase (VPW (PrefixedWriter k w)) = wbase w"
| "wbase (VP pr (PrefixedWriter k w)) = wbase w"
| "wbase v = v"

fun wflat :: "val \<Rightarrow> key" where
  "wflat (VPW (PrefixedWriter k w)) = wflat w @ k"
| "wflat (VP pr (PrefixedWriter k w)) = wflat w @ k"
| "wflat v = []"

fun rlayers :: "val \<Rightarrow> nat" where
  "rlayers (VPR (PrefixedReader k r)) = Suc (rlayers r)"
| "rlayers (VP (PrefixedReader k r) pw) = Suc (rlayers r)"
| "rlayers v = 0"

fun rbase :: "val \<Rightarrow> val" where
  "rbase (VPR (PrefixedReader k r)) = rbase r"
| "rbase (VP (PrefixedReader k r) pw) = rbase r"
| "rbase v = v"

text \<open>A tower of \<open>n\<close> writer wrappers over \<open>w\<close>, each with the one-segment key \<open>[s]\<close>.\<close>

primrec wtower :: "nat \<Rightarrow> string \<Rightarrow> val \<Rightarrow> val" where
  "wtower 0 s w = w"
| "wtower (Suc n) s w = VPW (PrefixedWriter [s] (wtower n s w))"

primrec rtower :: "nat \<Rightarrow> string \<Rightarrow> val \<Rightarrow> val" where
  "rtower 0 s r = r"
| "rtower (Suc n) s r = VPR (PrefixedReader [s] (rtower n s r))"

section \<open>One lookup, and calls that agree where they return\<close>

text \<open>
  The lookup that \<^verbatim>\<open>base\<close> and \<^verbatim>\<open>SafeGet\<close> both write out: SafeReader first, else
  Reader with the found flag; the result is the cause of the failure or the value.
\<close>

definition lookup :: "'s methods \<Rightarrow> val \<Rightarrow> string \<Rightarrow> ('s, val error + val) action" where
  "lookup D r key =
     (if implements D SafeReader r then
        andThen (callSafeGet D r key) (\<lambda>(v, err).
          case err of Some e \<Rightarrow> ret (Inl e) | None \<Rightarrow> ret (Inr v))
      else
        andThen (callGet D r key) (\<lambda>(v, ok).
          if \<not> ok then ret (Inl ErrNotFound) else ret (Inr v)))"

text \<open>The last lookup of \<open>Get\<close>, and the walk over two segments that ends with a given last step.\<close>

definition last_get :: "'s methods \<Rightarrow> string \<Rightarrow> val \<Rightarrow> ('s, val \<times> bool) action" where
  "last_get D key r =
     andThen (lookup D r key) (\<lambda>x. case x of Inl e \<Rightarrow> ret (VNil, False) | Inr u \<Rightarrow> ret (u, True))"

definition walk2 ::
  "'s methods \<Rightarrow> string \<Rightarrow> string \<Rightarrow> val \<Rightarrow> 'a \<Rightarrow> (val \<Rightarrow> ('s, 'a) action) \<Rightarrow> ('s, 'a) action" where
  "walk2 D a b r0 fail fin =
     andThen (lookup D r0 a) (\<lambda>x. case x of
        Inl e \<Rightarrow> ret fail
      | Inr ra \<Rightarrow>
          if \<not> implements D Reader ra then ret fail
          else andThen (lookup D ra b) (\<lambda>y. case y of
             Inl e \<Rightarrow> ret fail
           | Inr v \<Rightarrow> if \<not> implements D Reader v then ret fail else fin v))"

text \<open>
  \<open>reads_le D D'\<close>: the two agree on capabilities, and wherever a read call of \<open>D\<close> does not
  run out of stack, the call of \<open>D'\<close> does the same.
\<close>

definition reads_le :: "'s methods \<Rightarrow> 's methods \<Rightarrow> bool" where
  "reads_le D D' \<longleftrightarrow>
     has D' = has D \<and>
     (\<forall>v k st. fst (callGet D v k st) \<noteq> Overflow \<longrightarrow> callGet D' v k st = callGet D v k st) \<and>
     (\<forall>v k st. fst (callSafeGet D v k st) \<noteq> Overflow \<longrightarrow>
        callSafeGet D' v k st = callSafeGet D v k st) \<and>
     (\<forall>v st. fst (callList D v st) \<noteq> Overflow \<longrightarrow> callList D' v st = callList D v st)"

section \<open>An example backing store\<close>

text \<open>
  A store of string-keyed containers, used to run the prefix layer on concrete inputs: the
  state maps each object to its entries. Lookups leave the store as it is; \<open>Set\<close> reports
  whether the entry is new; \<open>Put\<close> returns the sub-writer stored under the key, or nil.
\<close>

type_synonym store = "(nat \<times> (string \<times> val) list) list"

definition entries :: "store \<Rightarrow> nat \<Rightarrow> (string \<times> val) list" where
  "entries s a = (case map_of s a of Some es \<Rightarrow> es | None \<Rightarrow> [])"

definition set_entries :: "nat \<Rightarrow> (string \<times> val) list \<Rightarrow> store \<Rightarrow> store" where
  "set_entries a es s = (a, es) # filter (\<lambda>p. fst p \<noteq> a) s"

definition store_objects :: "(nat \<Rightarrow> capability \<Rightarrow> bool) \<Rightarrow> store objects" where
  "store_objects c =
     \<lparr> caps = c,
       objGet = (\<lambda>a k s.
         (case map_of (entries s a) k of Some v \<Rightarrow> (v, True) | None \<Rightarrow> (VNil, False), s)),
       objSafeGet = (\<lambda>a k s.
         (case map_of (entries s a) k of
            Some v \<Rightarrow> (v, None)
          | None \<Rightarrow> (VNil, Some (Error ''Get'' [k] VNil VNil ErrNotFound)), s)),
       objList = (\<lambda>a s. (map fst (entries s a), s)),
       objDel = (\<lambda>a k s.
         (map_of (entries s a) k \<noteq> None,
          set_entries a (filter (\<lambda>p. fst p \<noteq> k) (entries s a)) s)),
       objSet = (\<lambda>a k v s.
         (map_of (entries s a) k = None,
          set_entries a ((k, v) # filter (\<lambda>p. fst p \<noteq> k) (entries s a)) s)),
       objPut = (\<lambda>a k h s.
         (case map_of (entries s a) k of Some w \<Rightarrow> w | None \<Rightarrow> VNil, s)),
       objSafeDel = (\<lambda>a k s.
         (if map_of (entries s a) k = None
          then Some (Error ''Del'' [k] VNil VNil ErrNotFound) else None,
          set_entries a (filter (\<lambda>p. fst p \<noteq> k) (entries s a)) s)),
       objSafeSet = (\<lambda>a k v s.
         ((map_of (entries s a) k = None, None),
          set_entries a ((k, v) # filter (\<lambda>p. fst p \<noteq> k) (entries s a)) s)),
       objSafePut = (\<lambda>a k h s.
         (case map_of (entries s a) k of
            Some w \<Rightarrow> (w, None)
          | None \<Rightarrow> (VNil, Some (Error ''Put'' [k] VNil VNil ErrNotFound)), s)) \<rparr>"

text \<open>Capabilities of the examples: every object reads and writes; none, or all, are safe.\<close>

definition plain_caps :: "nat \<Rightarrow> capability \<Rightarrow> bool" where
  "plain_caps a c = (c = Reader \<or> c = Writer)"

definition safe_caps :: "nat \<Rightarrow> capability \<Rightarrow> bool" where
  "safe_caps a c = True"

definition writer_caps :: "nat \<Rightarrow> capability \<Rightarrow> bool" where
  "writer_caps a c = (c = Writer)"

text \<open>The store \<open>a \<rightarrow> {b \<rightarrow> {x \<rightarrow> 1}}\<close>: object 0 is the root.\<close>

definition abx_store :: store where
  "abx_store = [(0, [(''a'', Obj 1)]), (1, [(''b'', Obj 2)]), (2, [(''x'', Scalar 1)])]"

text \<open>The store \<open>{a \<rightarrow> 1}\<close>, in which segment \<open>a\<close> resolves to an integer.\<close>

definition int_store :: store where
  "int_store = [(0, [(''a'', Scalar 1)])]"

section \<open>The Put chain\<close>

text \<open>
  The writers that the loop of \<^verbatim>\<open>SafePut\<close> calls \<^verbatim>\<open>Put\<close> on, one after the other,
  each the result of the \<^verbatim>\<open>Put\<close> before: \<open>plain_chain\<close> says that none of them
  implements SafeWriter, \<open>nonnil_chain\<close> that each of them implements Writer (a value of
  the interface type Writer is nil or implements Writer, so this says it is not nil). The
  writer that the last \<^verbatim>\<open>Put\<close> returns is not called and is not constrained.
  \<open>put_all\<close> is the plain succession of the \<^verbatim>\<open>Put\<close> calls.
\<close>

primrec plain_chain :: "string list \<Rightarrow> 's methods \<Rightarrow> Type \<Rightarrow> val \<Rightarrow> 's \<Rightarrow> bool" where
  "plain_chain [] D hint w st = True"
| "plain_chain (key # rest) D hint w st =
     (\<not> implements D SafeWriter w \<and>
      (case callPut D w key hint st of
         (Return w', st') \<Rightarrow> plain_chain rest D hint w' st'
       | (Panic, st') \<Rightarrow> True
       | (Overflow, st') \<Rightarrow> True))"

primrec nonnil_chain :: "string list \<Rightarrow> 's methods \<Rightarrow> Type \<Rightarrow> val \<Rightarrow> 's \<Rightarrow> bool" where
  "nonnil_chain [] D hint w st = True"
| "nonnil_chain (key # rest) D hint w st =
     (implements D Writer w \<and>
      (case callPut D w key hint st of
         (Return w', st') \<Rightarrow> nonnil_chain rest D hint w' st'
       | (Panic, st') \<Rightarrow> True
       | (Overflow, st') \<Rightarrow> True))"

primrec put_all :: "string list \<Rightarrow> 's methods \<Rightarrow> Type \<Rightarrow> val \<Rightarrow> ('s, val) action" where
  "put_all [] D hint w = ret w"
| "put_all (key # rest) D hint w = andThen (callPut D w key hint) (put_all rest D hint)"

section \<open>Map\<close>

text \<open>
  \<^verbatim>\<open>Map\<close> wraps a \<^verbatim>\<open>reflect.Value\<close> of a Go map. The part of package
  \<^verbatim>\<open>reflect\<close> that \<^verbatim>\<open>Map.SafeGet\<close> uses is modelled after its documentation: an
  element of the map is an integer, a string, a boolean, or a pointer-like value (pointer,
  interface, map, slice) that is nil or not; a \<^verbatim>\<open>reflect.Value\<close> is the zero Value
  (invalid) or holds an element together with the read-only flag it inherits from the map.
\<close>

datatype goval = GoInt int | GoString string | GoBool bool | GoNilRef | GoRef nat

datatype rvalue = Invalid | Value (flagRO: bool) (held: goval)

text \<open>
  The map behind a \<^verbatim>\<open>Map\<close>: \<open>stringKey\<close> says that a string converts to the key type
  (the key type is a string type or an interface), \<open>readOnly\<close> that the map was reached
  through an unexported field, \<open>elems\<close> are the entries.
\<close>

record GoMap =
  stringKey :: bool
  readOnly :: bool
  elems :: "string \<rightharpoonup> goval"

definition after :: "'a outcome \<Rightarrow> ('a \<Rightarrow> 'b outcome) \<Rightarrow> 'b outcome" where
  "after m f = (case m of Return x \<Rightarrow> f x | Panic \<Rightarrow> Panic | Overflow \<Rightarrow> Overflow)"

text \<open>
  \<^verbatim>\<open>Value.MapIndex\<close> returns the zero Value when the key is not in the map, and panics
  when the key is not assignable to the key type (a string that \<^verbatim>\<open>CanConvert\<close> refused
  to convert).
\<close>

definition MapIndex :: "GoMap \<Rightarrow> string \<Rightarrow> rvalue outcome" where
  "MapIndex m key =
     (if \<not> stringKey m then Panic
      else Return (case elems m key of None \<Rightarrow> Invalid | Some g \<Rightarrow> Value (readOnly m) g))"

text \<open>
  \<^verbatim>\<open>Value.IsZero\<close> reports whether the value is the zero value of its type, and panics
  on the zero Value (``It panics if the argument is invalid'').
\<close>

fun IsZero :: "rvalue \<Rightarrow> bool outcome" where
  "IsZero Invalid = Panic"
| "IsZero (Value ro (GoInt n)) = Return (n = 0)"
| "IsZero (Value ro (GoString s)) = Return (s = [])"
| "IsZero (Value ro (GoBool b)) = Return (\<not> b)"
| "IsZero (Value ro GoNilRef) = Return True"
| "IsZero (Value ro (GoRef a)) = Return False"

text \<open>\<^verbatim>\<open>Value.CanInterface\<close> is false for a read-only value and panics on the zero Value.\<close>

fun CanInterface :: "rvalue \<Rightarrow> bool outcome" where
  "CanInterface Invalid = Panic"
| "CanInterface (Value ro g) = Return (\<not> ro)"

text \<open>
  \<^verbatim>\<open>Map.SafeGet\<close> of \<^verbatim>\<open>src/map.go\<close>. \<^verbatim>\<open>tryMake\<close> is not part of the sources at
  hand and is a parameter. \<open>Got\<close> of these errors is absent or a \<^verbatim>\<open>reflect.Value\<close>; the
  message of \<^verbatim>\<open>fmt.Errorf\<close> is kept without the type name.
\<close>

definition Map_SafeGet ::
  "(goval \<Rightarrow> val) \<Rightarrow> GoMap \<Rightarrow> string \<Rightarrow> (val \<times> rvalue option error option) outcome" where
  "Map_SafeGet tryMake m key =
     after (MapIndex m key) (\<lambda>v.
       after (IsZero v) (\<lambda>zero.
         if zero then Return (VNil, Some (Error ''Get'' [key] None None ErrNotFound))
         else
           after (CanInterface v) (\<lambda>can.
             if \<not> can then
               Return (VNil,
                 Some (Error ''Get'' [key] (Some v) None (ErrOther ''cannot access value'')))
             else Return (tryMake (held v), None))))"

definition Map_Get :: "(goval \<Rightarrow> val) \<Rightarrow> GoMap \<Rightarrow> string \<Rightarrow> (val \<times> bool) outcome" where
  "Map_Get tryMake m key =
     after (Map_SafeGet tryMake m key) (\<lambda>(v, err). Return (v, err = None))"

section \<open>Basic facts\<close>

lemma andThen_ret [simp]: "andThen (ret x) f = f x"
  by (rule ext) (simp add: andThen_def ret_def)

lemma andThen_assoc [simp]: "andThen (andThen m f) g = andThen m (\<lambda>x. andThen (f x) g)"
  by (rule ext) (simp add: andThen_def split: prod.splits outcome.splits)

lemma andThen_Return: "m st = (Return x, st') \<Longrightarrow> andThen m f st = f x st'"
  by (simp add: andThen_def)

lemma andThen_Panic: "m st = (Panic, st') \<Longrightarrow> andThen m f st = (Panic, st')"
  by (simp add: andThen_def)

lemma andThen_Overflow: "m st = (Overflow, st') \<Longrightarrow> andThen m f st = (Overflow, st')"
  by (simp add: andThen_def)

text \<open>The definitions that running the model on a concrete input unfolds.\<close>

lemmas run =
  PrefixedReader_base_def PrefixedReader_SafeGet_def PrefixedReader_Get_def
  PrefixedReader_List_def PrefixedWriter_writer_def PrefixedWriter_reader_def
  PrefixedWriter_SafeDel_def PrefixedWriter_SafeSet_def PrefixedWriter_SafePut_def
  PrefixedWriter_Del_def PrefixedWriter_Set_def PrefixedWriter_Put_def
  writer_loop.simps reader_loop.simps PrefixedReader_reader_def maxDepth_def Prepend_def
  andThen_def ret_def returns_def panic_def overflow_def
  store_objects_def entries_def set_entries_def plain_caps_def safe_caps_def writer_caps_def
  abx_store_def int_store_def eval_nat_numeral

section \<open>The prefix walk\<close>

lemma base_range_Cons:
  "base_range (key # rest) D op K i r =
     andThen (lookup D r key) (\<lambda>x. case x of
        Inl e \<Rightarrow> ret (VNil, Some (Error op (take (i + 1) K) r VNil e))
      | Inr v \<Rightarrow>
          if \<not> implements D Reader v then
            ret (VNil, Some (Error op (take (i + 1) K) v Reader_nil ErrUnexpectedType))
          else base_range rest D op K (i + 1) v)"
  by (rule ext)
    (auto simp: lookup_def andThen_def ret_def split: prod.splits outcome.splits option.splits)

lemma SafeGet_lookup:
  "PrefixedReader_SafeGet D pr key =
     andThen (PrefixedReader_base D ''Get'' pr) (\<lambda>(r, err).
       case err of
         Some e \<Rightarrow> ret (VNil, Some e)
       | None \<Rightarrow> andThen (lookup D r key) (\<lambda>x. case x of
           Inl e \<Rightarrow> ret (VNil, Some (Error ''Get'' (rKey pr @ [key]) r VNil e))
         | Inr v \<Rightarrow> ret (v, None)))"
  by (rule ext)
    (auto simp: PrefixedReader_SafeGet_def lookup_def andThen_def ret_def
      split: prod.splits outcome.splits option.splits)

text \<open>
  A walk that succeeds on the first segments of a key is the beginning of the walk over the
  whole key: the loop goes on from the container reached, at the next index.
\<close>

lemma base_range_append:
  "base_range xs D op K i r st = (Return (r', None), st') \<Longrightarrow>
   base_range (xs @ ys) D op K' i r st = base_range ys D op K' (i + length xs) r' st'"
proof (induction xs arbitrary: i r st)
  case Nil
  then show ?case by (simp add: ret_def)
next
  case (Cons x xs)
  show ?case
  proof (cases "lookup D r x st")
    case (Pair out st1)
    show ?thesis
    proof (cases out)
      case (Return y)
      show ?thesis
      proof (cases y)
        case (Inl e)
        with Cons.prems Pair Return show ?thesis
          by (simp add: base_range_Cons andThen_Return ret_def del: base_range.simps)
      next
        case (Inr v)
        with Cons.prems Pair Return have rd: "implements D Reader v"
          by (auto simp add: base_range_Cons andThen_Return ret_def
              simp del: base_range.simps split: if_splits)
        with Cons.prems Pair Return Inr
        have "base_range xs D op K (i + 1) v st1 = (Return (r', None), st')"
          by (simp add: base_range_Cons andThen_Return del: base_range.simps)
        from Cons.IH [OF this] Pair Return Inr rd show ?thesis
          by (simp add: base_range_Cons andThen_Return del: base_range.simps)
      qed
    next
      case Panic
      with Cons.prems Pair show ?thesis
        by (simp add: base_range_Cons andThen_Panic del: base_range.simps)
    next
      case Overflow
      with Cons.prems Pair show ?thesis
        by (simp add: base_range_Cons andThen_Overflow del: base_range.simps)
    qed
  qed
qed

lemma base_prefix_walk:
  assumes "PrefixedReader_base D op (PrefixedReader pre r0) st = (Return (r, None), st1)"
  shows "PrefixedReader_base D op (PrefixedReader (pre @ seg # post) r0) st =
         base_range (seg # post) D op (pre @ seg # post) (length pre) r st1"
  using base_range_append [of pre D op pre 0 r0 st r st1 "seg # post" "pre @ seg # post"] assms
  by (simp add: PrefixedReader_base_def del: base_range.simps)

text \<open>
  Let the walk over the segments \<open>pre\<close> (segments 0..i-1 of the key \<open>pre @ seg # post\<close>)
  succeed and reach the container \<open>r\<close>, so that segment \<open>i\<close> is \<open>seg\<close> and is looked up in
  \<open>r\<close>. If \<open>r\<close> is a SafeReader and its \<^verbatim>\<open>SafeGet\<close> fails with \<open>e\<close>, the walk returns the
  error with the operation name, \<open>Key = pre @ [seg]\<close> (segments 0..i inclusive),
  \<open>Got = r\<close> and cause \<open>e\<close>. If \<open>r\<close> is a plain Reader and reports not found, the error is
  the same with cause \<^verbatim>\<open>ErrNotFound\<close>. If the lookup succeeds with a value \<open>v\<close> that is
  not a Reader, the walk returns \<^verbatim>\<open>ErrUnexpectedType\<close> at the same path \<open>pre @ [seg]\<close>,
  whatever segments \<open>post\<close> follow, with \<open>Got = v\<close>; its \<open>Want\<close> is the nil interface, as in
  the two other errors.
\<close>

lemma base_failure_path:
  assumes "PrefixedReader_base D op (PrefixedReader pre r0) st = (Return (r, None), st1)"
  shows "(implements D SafeReader r \<and> callSafeGet D r seg st1 = (Return (v, Some e), st2) \<longrightarrow>
            PrefixedReader_base D op (PrefixedReader (pre @ seg # post) r0) st =
              (Return (VNil, Some (Error op (pre @ [seg]) r VNil e)), st2)) \<and>
         (\<not> implements D SafeReader r \<and> callGet D r seg st1 = (Return (v, False), st2) \<longrightarrow>
            PrefixedReader_base D op (PrefixedReader (pre @ seg # post) r0) st =
              (Return (VNil, Some (Error op (pre @ [seg]) r VNil ErrNotFound)), st2)) \<and>
         (((implements D SafeReader r \<and> callSafeGet D r seg st1 = (Return (v, None), st2)) \<or>
           (\<not> implements D SafeReader r \<and> callGet D r seg st1 = (Return (v, True), st2))) \<and>
          \<not> implements D Reader v \<longrightarrow>
            PrefixedReader_base D op (PrefixedReader (pre @ seg # post) r0) st =
              (Return (VNil, Some (Error op (pre @ [seg]) v VNil ErrUnexpectedType)), st2))"
  unfolding base_prefix_walk [OF assms]
  by (simp add: andThen_def ret_def)

lemma base_failure_path_examples:
  "PrefixedReader_base (dispatch 2 (store_objects safe_caps)) ''Get''
     (PrefixedReader ([''a''] @ ''q'' # [''z'']) (Obj 0)) abx_store =
   (Return (VNil, Some (Error ''Get'' ([''a''] @ [''q'']) (Obj 1) VNil
      (Error ''Get'' [''q''] VNil VNil ErrNotFound))), abx_store) \<and>
   PrefixedReader_base (dispatch 2 (store_objects plain_caps)) ''Get''
     (PrefixedReader ([''a''] @ ''q'' # [''z'']) (Obj 0)) abx_store =
   (Return (VNil, Some (Error ''Get'' ([''a''] @ [''q'']) (Obj 1) VNil ErrNotFound)),
    abx_store) \<and>
   PrefixedReader_base (dispatch 2 (store_objects plain_caps)) ''Get''
     (PrefixedReader ([''a'', ''b''] @ ''x'' # [''z'']) (Obj 0)) abx_store =
   (Return (VNil, Some (Error ''Get'' ([''a'', ''b''] @ [''x'']) (Scalar 1) VNil
      ErrUnexpectedType)), abx_store)"
proof -
  let ?S = "dispatch 2 (store_objects safe_caps)"
  let ?P = "dispatch 2 (store_objects plain_caps)"
  have s1: "PrefixedReader_base ?S ''Get'' (PrefixedReader [''a''] (Obj 0)) abx_store =
      (Return (Obj 1, None), abx_store)"
    by (simp add: run)
  have s2: "implements ?S SafeReader (Obj 1) \<and>
      callSafeGet ?S (Obj 1) ''q'' abx_store =
        (Return (VNil, Some (Error ''Get'' [''q''] VNil VNil ErrNotFound)), abx_store)"
    by (simp add: run)
  have p1: "PrefixedReader_base ?P ''Get'' (PrefixedReader [''a''] (Obj 0)) abx_store =
      (Return (Obj 1, None), abx_store)"
    by (simp add: run)
  have p2: "\<not> implements ?P SafeReader (Obj 1) \<and>
      callGet ?P (Obj 1) ''q'' abx_store = (Return (VNil, False), abx_store)"
    by (simp add: run)
  have u1: "PrefixedReader_base ?P ''Get'' (PrefixedReader [''a'', ''b''] (Obj 0)) abx_store =
      (Return (Obj 2, None), abx_store)"
    by (simp add: run)
  have u2: "((implements ?P SafeReader (Obj 2) \<and>
        callSafeGet ?P (Obj 2) ''x'' abx_store = (Return (Scalar 1, None), abx_store)) \<or>
       (\<not> implements ?P SafeReader (Obj 2) \<and>
        callGet ?P (Obj 2) ''x'' abx_store = (Return (Scalar 1, True), abx_store))) \<and>
      \<not> implements ?P Reader (Scalar 1)"
    by (simp add: run)
  show ?thesis
    using base_failure_path [OF s1, of "''q''" VNil "Error ''Get'' [''q''] VNil VNil ErrNotFound"
        abx_store "[''z'']"] s2
      base_failure_path [OF p1, of "''q''" VNil ErrNotFound abx_store "[''z'']"] p2
      base_failure_path [OF u1, of "''x''" "Scalar 1" ErrNotFound abx_store "[''z'']"] u2
    by blast
qed

text \<open>
  C1. The path, \<open>Got\<close> and the cause of the errors of the walk are as the claim says. Its
  last part, that the type error has \<open>Want\<close> = a Reader, does not hold of the code: over the
  store \<open>{a \<rightarrow> 1}\<close> the walk of the prefix \<open>[a, b]\<close>, and \<^verbatim>\<open>SafeGet\<close> under the prefix
  \<open>[a]\<close>, fail with \<^verbatim>\<open>ErrUnexpectedType\<close> at the path \<open>[a]\<close> with \<open>Got\<close> the integer, and
  the \<open>Want\<close> of that error is the nil interface: it names no capability, and is the same as
  the \<open>Want\<close> of the not-found error of the same walk, which sets none.
\<close>

theorem base_unexpected_type_want_nil:
  "PrefixedReader_base (dispatch 1 (store_objects plain_caps)) ''Get''
     (PrefixedReader [''a'', ''b''] (Obj 0)) int_store =
   (Return (VNil, Some (Error ''Get'' [''a''] (Scalar 1) VNil ErrUnexpectedType)), int_store) \<and>
   PrefixedReader_SafeGet (dispatch 1 (store_objects plain_caps))
     (PrefixedReader [''a''] (Obj 0)) ''x'' int_store =
   (Return (VNil, Some (Error ''Get'' [''a''] (Scalar 1) VNil ErrUnexpectedType)), int_store) \<and>
   PrefixedReader_base (dispatch 1 (store_objects plain_caps)) ''Get''
     (PrefixedReader [''q'', ''b''] (Obj 0)) int_store =
   (Return (VNil, Some (Error ''Get'' [''q''] (Obj 0) VNil ErrNotFound)), int_store)"
  by (simp add: run)

text \<open>
  C3. With an empty key the walk returns the base container itself, without an error, for
  every base, every operation name and every dispatch, and it leaves the state as it is:
  since the state is whatever the methods of the dispatch make of it (for instance a
  record of every lookup made), no method has been called.
\<close>

theorem base_empty_key:
  "PrefixedReader_base D op (PrefixedReader [] r) st = (Return (r, None), st)"
  by (simp add: PrefixedReader_base_def ret_def)

section \<open>The final lookup of SafeGet\<close>

text \<open>
  C4. Let the prefix walk of a PrefixedReader succeed and reach the container \<open>r\<close>. If \<open>r\<close>
  implements SafeReader, the result of \<^verbatim>\<open>SafeGet\<close> is decided by \<open>r\<close>'s \<^verbatim>\<open>SafeGet\<close>:
  an error \<open>e\<close> is wrapped again with the full path \<open>prefix @ [key]\<close> and \<open>Got = r\<close>, a value is
  returned as it is. If \<open>r\<close> is a plain Reader, a false found flag becomes the structured
  error with cause \<^verbatim>\<open>ErrNotFound\<close> at the same full path, and a found value is returned.
\<close>

theorem SafeGet_final_lookup:
  assumes "PrefixedReader_base D ''Get'' pr st = (Return (r, None), st1)"
  shows "(implements D SafeReader r \<and> callSafeGet D r key st1 = (Return (v, Some e), st2) \<longrightarrow>
            PrefixedReader_SafeGet D pr key st =
              (Return (VNil, Some (Error ''Get'' (rKey pr @ [key]) r VNil e)), st2)) \<and>
         (implements D SafeReader r \<and> callSafeGet D r key st1 = (Return (v, None), st2) \<longrightarrow>
            PrefixedReader_SafeGet D pr key st = (Return (v, None), st2)) \<and>
         (\<not> implements D SafeReader r \<and> callGet D r key st1 = (Return (v, False), st2) \<longrightarrow>
            PrefixedReader_SafeGet D pr key st =
              (Return (VNil, Some (Error ''Get'' (rKey pr @ [key]) r VNil ErrNotFound)), st2)) \<and>
         (\<not> implements D SafeReader r \<and> callGet D r key st1 = (Return (v, True), st2) \<longrightarrow>
            PrefixedReader_SafeGet D pr key st = (Return (v, None), st2))"
  using assms by (simp add: PrefixedReader_SafeGet_def andThen_def ret_def)

theorem SafeGet_final_lookup_witness:
  "PrefixedReader_SafeGet (dispatch 2 (store_objects safe_caps))
     (PrefixedReader [''a'', ''b''] (Obj 0)) ''y'' abx_store =
   (Return (VNil, Some (Error ''Get'' (rKey (PrefixedReader [''a'', ''b''] (Obj 0)) @ [''y''])
      (Obj 2) VNil (Error ''Get'' [''y''] VNil VNil ErrNotFound))), abx_store) \<and>
   PrefixedReader_SafeGet (dispatch 2 (store_objects plain_caps))
     (PrefixedReader [''a'', ''b''] (Obj 0)) ''y'' abx_store =
   (Return (VNil, Some (Error ''Get'' (rKey (PrefixedReader [''a'', ''b''] (Obj 0)) @ [''y''])
      (Obj 2) VNil ErrNotFound)), abx_store) \<and>
   PrefixedReader_SafeGet (dispatch 2 (store_objects safe_caps))
     (PrefixedReader [''a'', ''b''] (Obj 0)) ''x'' abx_store =
   (Return (Scalar 1, None), abx_store)"
proof -
  let ?S = "dispatch 2 (store_objects safe_caps)"
  let ?P = "dispatch 2 (store_objects plain_caps)"
  have s1: "PrefixedReader_base ?S ''Get'' (PrefixedReader [''a'', ''b''] (Obj 0)) abx_store =
      (Return (Obj 2, None), abx_store)"
    by (simp add: run)
  have s2: "implements ?S SafeReader (Obj 2) \<and>
      callSafeGet ?S (Obj 2) ''y'' abx_store =
        (Return (VNil, Some (Error ''Get'' [''y''] VNil VNil ErrNotFound)), abx_store)"
    by (simp add: run)
  have s3: "implements ?S SafeReader (Obj 2) \<and>
      callSafeGet ?S (Obj 2) ''x'' abx_store = (Return (Scalar 1, None), abx_store)"
    by (simp add: run)
  have p1: "PrefixedReader_base ?P ''Get'' (PrefixedReader [''a'', ''b''] (Obj 0)) abx_store =
      (Return (Obj 2, None), abx_store)"
    by (simp add: run)
  have p2: "\<not> implements ?P SafeReader (Obj 2) \<and>
      callGet ?P (Obj 2) ''y'' abx_store = (Return (VNil, False), abx_store)"
    by (simp add: run)
  show ?thesis
    using SafeGet_final_lookup [OF s1, of "''y''" VNil
        "Error ''Get'' [''y''] VNil VNil ErrNotFound" abx_store] s2
      SafeGet_final_lookup [OF p1, of "''y''" VNil ErrNotFound abx_store] p2
      SafeGet_final_lookup [OF s1, of "''x''" "Scalar 1" ErrNotFound abx_store] s3
    by blast
qed

section \<open>Reading through a writer\<close>




section \<open>Del and Set do not create containers\<close>

lemma writer_over_object: "PrefixedWriter_writer (PrefixedWriter k (Obj n)) = (Obj n, k)"
  by (simp add: PrefixedWriter_writer_def writer_loop.simps maxDepth_def)

text \<open>
  C5. Take a PrefixedWriter with the prefix \<open>[a]\<close> over a backing store, an object that
  both reads and writes, in which \<open>a\<close> is absent: the lookup of \<open>a\<close> fails with an error
  caused by not-found (SafeReader) or reports not found (plain Reader), and, being a
  lookup, leaves the store as it is. Then \<^verbatim>\<open>SafeSet\<close> of any key \<open>b\<close> fails with an
  error whose \<open>Key\<close> is exactly \<open>[a]\<close> and whose cause is not-found, and the store after the
  call is the store before it: nothing was created. \<^verbatim>\<open>SafeDel\<close> fails the same way.
\<close>

theorem SafeSet_missing_prefix:
  assumes "implements D Reader (Obj n)"
    and "(implements D SafeReader (Obj n) \<and>
            callSafeGet D (Obj n) a st = (Return (v, Some e), st) \<and> is_not_found e) \<or>
         (\<not> implements D SafeReader (Obj n) \<and>
            callGet D (Obj n) a st = (Return (v, False), st))"
  shows "\<exists>cause. is_not_found cause \<and>
           PrefixedWriter_SafeSet D (PrefixedWriter [a] (Obj n)) b value st =
             (Return (False, Some (Error ''Set'' [a] (Obj n) VNil cause)), st) \<and>
           PrefixedWriter_SafeDel D (PrefixedWriter [a] (Obj n)) b st =
             (Return (Some (Error ''Del'' [a] (Obj n) VNil cause)), st)"
proof -
  have rd: "PrefixedWriter_reader D op (PrefixedWriter [a] (Obj n)) =
      (PrefixedReader [a] (Obj n), None)" for op
    using assms(1) by (simp add: PrefixedWriter_reader_def writer_over_object)
  from assms(2) show ?thesis
  proof
    assume h: "implements D SafeReader (Obj n) \<and>
      callSafeGet D (Obj n) a st = (Return (v, Some e), st) \<and> is_not_found e"
    then have "is_not_found e \<and>
           PrefixedWriter_SafeSet D (PrefixedWriter [a] (Obj n)) b value st =
             (Return (False, Some (Error ''Set'' [a] (Obj n) VNil e)), st) \<and>
           PrefixedWriter_SafeDel D (PrefixedWriter [a] (Obj n)) b st =
             (Return (Some (Error ''Del'' [a] (Obj n) VNil e)), st)"
      by (simp add: PrefixedWriter_SafeSet_def PrefixedWriter_SafeDel_def rd
          PrefixedReader_base_def andThen_def ret_def)
    then show ?thesis by blast
  next
    assume h: "\<not> implements D SafeReader (Obj n) \<and>
      callGet D (Obj n) a st = (Return (v, False), st)"
    then have "is_not_found ErrNotFound \<and>
           PrefixedWriter_SafeSet D (PrefixedWriter [a] (Obj n)) b value st =
             (Return (False, Some (Error ''Set'' [a] (Obj n) VNil ErrNotFound)), st) \<and>
           PrefixedWriter_SafeDel D (PrefixedWriter [a] (Obj n)) b st =
             (Return (Some (Error ''Del'' [a] (Obj n) VNil ErrNotFound)), st)"
      by (simp add: PrefixedWriter_SafeSet_def PrefixedWriter_SafeDel_def rd
          PrefixedReader_base_def andThen_def ret_def)
    then show ?thesis by blast
  qed
qed

theorem SafeSet_missing_prefix_witness:
  "\<exists>cause. is_not_found cause \<and>
     PrefixedWriter_SafeSet (dispatch 2 (store_objects safe_caps))
       (PrefixedWriter [''q''] (Obj 0)) ''b'' (Scalar 7) abx_store =
       (Return (False, Some (Error ''Set'' [''q''] (Obj 0) VNil cause)), abx_store) \<and>
     PrefixedWriter_SafeDel (dispatch 2 (store_objects safe_caps))
       (PrefixedWriter [''q''] (Obj 0)) ''b'' abx_store =
       (Return (Some (Error ''Del'' [''q''] (Obj 0) VNil cause)), abx_store)"
proof -
  let ?D = "dispatch 2 (store_objects safe_caps)"
  have h1: "implements ?D Reader (Obj 0)"
    by (simp add: run)
  have h2: "(implements ?D SafeReader (Obj 0) \<and>
       callSafeGet ?D (Obj 0) ''q'' abx_store =
         (Return (VNil, Some (Error ''Get'' [''q''] VNil VNil ErrNotFound)), abx_store) \<and>
       is_not_found (Error ''Get'' [''q''] VNil VNil ErrNotFound)) \<or>
      (\<not> implements ?D SafeReader (Obj 0) \<and>
       callGet ?D (Obj 0) ''q'' abx_store = (Return (VNil, False), abx_store))"
    by (simp add: run)
  show ?thesis
    using SafeSet_missing_prefix [OF h1 h2, of "''b''" "Scalar 7"] .
qed

section \<open>Flattening is bounded\<close>

text \<open>
  The loops are defined by recursion on the counter \<open>i\<close>, which each iteration increases
  and which stops the loop at \<open>maxDepth\<close>: they are total functions. Started at \<open>i\<close>, the
  loop unwraps all layers when fewer than \<open>maxDepth - i\<close> lie below, and gives up otherwise.
\<close>

lemma writer_loop_layers:
  "writer_loop i pw key =
     (if i + wlayers (W pw) < maxDepth then (wbase (W pw), wflat (W pw) @ key) else (VNil, []))"
proof (induction i pw key rule: writer_loop.induct)
  case (1 i pw key)
  show ?case
  proof (cases "i < maxDepth")
    case False
    then show ?thesis by (subst writer_loop.simps) simp
  next
    case True
    show ?thesis
    proof (cases "W pw")
      case (VPW x)
      obtain k w where x: "x = PrefixedWriter k w" by (cases x)
      from "1.IH"(1) [OF True VPW] True VPW x show ?thesis
        by (subst writer_loop.simps) (simp add: Prepend_def)
    next
      case (VP y x)
      obtain k w where x: "x = PrefixedWriter k w" by (cases x)
      from "1.IH"(2) [OF True VP] True VP x show ?thesis
        by (subst writer_loop.simps) (simp add: Prepend_def)
    qed (use True in \<open>subst writer_loop.simps, simp\<close>)+
  qed
qed

lemma reader_loop_layers:
  "reader_loop i pr key = (if i + rlayers (R pr) < maxDepth then rbase (R pr) else VNil)"
proof (induction i pr key rule: reader_loop.induct)
  case (1 i pr key)
  show ?case
  proof (cases "i < maxDepth")
    case False
    then show ?thesis by (subst reader_loop.simps) simp
  next
    case True
    show ?thesis
    proof (cases "R pr")
      case (VPR x)
      obtain k r where x: "x = PrefixedReader k r" by (cases x)
      from "1.IH"(1) [OF True VPR] True VPR x show ?thesis
        by (subst reader_loop.simps) simp
    next
      case (VP x y)
      obtain k r where x: "x = PrefixedReader k r" by (cases x)
      from "1.IH"(2) [OF True VP] True VP x show ?thesis
        by (subst reader_loop.simps) simp
    qed (use True in \<open>subst reader_loop.simps, simp\<close>)+
  qed
qed

lemma wlayers_wtower: "wlayers (wtower n s (Obj a)) = n"
  by (induction n) simp_all

lemma wbase_wtower: "wbase (wtower n s (Obj a)) = Obj a"
  by (induction n) simp_all

lemma wflat_wtower: "wflat (wtower n s (Obj a)) = replicate n s"
  by (induction n) (simp_all add: replicate_append_same)

lemma rlayers_rtower: "rlayers (rtower n s (Obj a)) = n"
  by (induction n) simp_all

lemma rbase_rtower: "rbase (rtower n s (Obj a)) = Obj a"
  by (induction n) simp_all

text \<open>
  C7. Flattening is a total function of the wrapper, and its unwrapping is bounded by 128
  steps: \<^verbatim>\<open>writer\<close> returns the innermost writer and the concatenated keys when fewer
  than 128 wrapper layers lie below the receiver, and after 128 unwrap steps it stops and
  returns \<^verbatim>\<open>nil, nil\<close>; \<^verbatim>\<open>reader\<close> does the same on the read side and returns the
  innermost reader or \<^verbatim>\<open>nil\<close>. The wrappers are struct values, so every input is a
  finite nesting; a nesting of any depth, however deep, is covered.
\<close>

theorem flattening_bounded:
  "PrefixedWriter_writer pw =
     (if wlayers (W pw) < 128 then (wbase (W pw), wflat (W pw) @ wKey pw) else (VNil, [])) \<and>
   PrefixedReader_reader pr = (if rlayers (R pr) < 128 then rbase (R pr) else VNil)"
  by (simp add: PrefixedWriter_writer_def PrefixedReader_reader_def writer_loop_layers
      reader_loop_layers maxDepth_def)

theorem flattening_bounded_witness:
  "PrefixedWriter_writer (PrefixedWriter [''c''] (wtower 127 ''s'' (Obj 0))) =
     (Obj 0, replicate 127 ''s'' @ [''c'']) \<and>
   PrefixedReader_reader (PrefixedReader [''c''] (rtower 127 ''s'' (Obj 0))) = Obj 0 \<and>
   PrefixedWriter_writer (PrefixedWriter [''c''] (wtower 128 ''s'' (Obj 0))) = (VNil, []) \<and>
   PrefixedReader_reader (PrefixedReader [''c''] (rtower 128 ''s'' (Obj 0))) = VNil \<and>
   PrefixedWriter_writer (PrefixedWriter [''c''] (wtower 1000 ''s'' (Obj 0))) = (VNil, [])"
  using flattening_bounded [of "PrefixedWriter [''c''] (wtower 127 ''s'' (Obj 0))"
      "PrefixedReader [''c''] (rtower 127 ''s'' (Obj 0))"]
    flattening_bounded [of "PrefixedWriter [''c''] (wtower 128 ''s'' (Obj 0))"
      "PrefixedReader [''c''] (rtower 128 ''s'' (Obj 0))"]
    flattening_bounded [of "PrefixedWriter [''c''] (wtower 1000 ''s'' (Obj 0))"
      "PrefixedReader [''c''] (rtower 128 ''s'' (Obj 0))"]
  by (simp add: wlayers_wtower wbase_wtower wflat_wtower rlayers_rtower rbase_rtower)

section \<open>The walk of SafePut\<close>



lemma SafePut_beyond_bound:
  "\<not> wlayers (W pw) < 128 \<Longrightarrow>
   PrefixedWriter_SafePut D pw key hint st = put_range [key] D hint [key] 0 VNil st"
  by (simp add: PrefixedWriter_SafePut_def PrefixedWriter_writer_def writer_loop_layers
      maxDepth_def Let_def del: put_range.simps)



section \<open>SafePut over plain writers\<close>

text \<open>
  Over a chain without a SafeWriter the loop of \<^verbatim>\<open>SafePut\<close> is the succession of the
  \<^verbatim>\<open>Put\<close> calls, with a nil error attached to the writer the last one returns.
\<close>

lemma put_range_plain_chain:
  "plain_chain ks D hint w st \<Longrightarrow>
   put_range ks D hint N i w st = andThen (put_all ks D hint w) (\<lambda>x. ret (x, None)) st"
proof (induction ks arbitrary: i w st)
  case Nil
  show ?case by simp
next
  case (Cons seg ks)
  obtain out st1 where c: "callPut D w seg hint st = (out, st1)"
    by (cases "callPut D w seg hint st")
  from Cons.prems have u: "\<not> implements D SafeWriter w" by simp
  show ?case
  proof (cases out)
    case (Return w1)
    with Cons.prems c have "plain_chain ks D hint w1 st1" by simp
    from Cons.IH [OF this, of "i + 1"] u c Return show ?thesis
      by (simp add: andThen_def)
  qed (use u c in \<open>simp_all add: andThen_def\<close>)
qed

lemma attach_nil_no_error:
  "andThen m (\<lambda>x. ret (x, None)) st \<noteq> (Return (y, Some e), st')"
  by (auto simp: andThen_def ret_def split: prod.splits outcome.splits)

text \<open>
  In the dispatch of the prefix layer a \<^verbatim>\<open>Put\<close> on nil panics, and a \<^verbatim>\<open>Put\<close> on
  a writer that is not nil and not a SafeWriter, which is an outside object, returns.
\<close>

lemma Put_on_nil:
  "callPut (dispatch (Suc d) E) VNil key hint st = (Panic, st)"
  by (simp add: panic_def)

lemma Put_on_plain_writer:
  assumes "implements (dispatch (Suc d) E) Writer w"
    and "\<not> implements (dispatch (Suc d) E) SafeWriter w"
  shows "\<exists>w' st'. callPut (dispatch (Suc d) E) w key hint st = (Return w', st')"
  using assms by (cases w) (auto simp: returns_def split: prod.splits)

lemma put_all_returns:
  "plain_chain ks (dispatch (Suc d) E) hint w st \<Longrightarrow>
   nonnil_chain ks (dispatch (Suc d) E) hint w st \<Longrightarrow>
   \<exists>x st'. put_all ks (dispatch (Suc d) E) hint w st = (Return x, st')"
proof (induction ks arbitrary: w st)
  case Nil
  show ?case by (simp add: ret_def)
next
  case (Cons seg ks)
  let ?D = "dispatch (Suc d) E"
  from Cons.prems have "implements ?D Writer w" and "\<not> implements ?D SafeWriter w"
    by (simp_all del: dispatch.simps)
  from Put_on_plain_writer [OF this] obtain w1 st1
    where c: "callPut ?D w seg hint st = (Return w1, st1)"
    by blast
  with Cons.prems have "plain_chain ks ?D hint w1 st1" and "nonnil_chain ks ?D hint w1 st1"
    by (simp_all del: dispatch.simps)
  from Cons.IH [OF this] obtain x st' where "put_all ks ?D hint w1 st1 = (Return x, st')"
    by blast
  with c show ?case by (simp add: andThen_def del: dispatch.simps)
qed

text \<open>
  C10, as amended. Let no writer on which the loop of \<^verbatim>\<open>SafePut\<close> calls \<^verbatim>\<open>Put\<close>
  implement SafeWriter: the flattened writer \<open>w0\<close> and every sub-writer returned by a
  \<^verbatim>\<open>Put\<close> before the last, nil or not. Then \<^verbatim>\<open>SafePut\<close> is the succession of the
  \<^verbatim>\<open>Put\<close> calls with a nil error attached: it never returns an error, so no
  sub-writer, failed or nil, is turned into one. If moreover every writer on which
  \<^verbatim>\<open>Put\<close> is called is not nil, \<^verbatim>\<open>SafePut\<close> returns, with a nil error and the
  writer that the last \<^verbatim>\<open>Put\<close> returned, which may be nil.
\<close>

theorem SafePut_plain_chain:
  assumes "PrefixedWriter_writer pw = (w0, k)"
    and "plain_chain (k @ [key]) (dispatch (Suc d) E) hint w0 st"
  shows "PrefixedWriter_SafePut (dispatch (Suc d) E) pw key hint st =
           andThen (put_all (k @ [key]) (dispatch (Suc d) E) hint w0) (\<lambda>x. ret (x, None)) st \<and>
         (\<forall>x e st'. PrefixedWriter_SafePut (dispatch (Suc d) E) pw key hint st \<noteq>
            (Return (x, Some e), st')) \<and>
         (nonnil_chain (k @ [key]) (dispatch (Suc d) E) hint w0 st \<longrightarrow>
            (\<exists>x st'. PrefixedWriter_SafePut (dispatch (Suc d) E) pw key hint st =
               (Return (x, None), st') \<and>
               put_all (k @ [key]) (dispatch (Suc d) E) hint w0 st = (Return x, st')))"
proof -
  let ?D = "dispatch (Suc d) E"
  have eq: "PrefixedWriter_SafePut ?D pw key hint st =
      andThen (put_all (k @ [key]) ?D hint w0) (\<lambda>x. ret (x, None)) st"
    using put_range_plain_chain [OF assms(2), of "k @ [key]" 0]
    by (simp add: PrefixedWriter_SafePut_def assms(1) Let_def del: dispatch.simps)
  have noerr: "\<forall>x e st'. PrefixedWriter_SafePut ?D pw key hint st \<noteq> (Return (x, Some e), st')"
    unfolding eq by (simp add: attach_nil_no_error del: dispatch.simps)
  have ret: "\<exists>x st'. PrefixedWriter_SafePut ?D pw key hint st = (Return (x, None), st') \<and>
      put_all (k @ [key]) ?D hint w0 st = (Return x, st')"
    if "nonnil_chain (k @ [key]) ?D hint w0 st"
  proof -
    from put_all_returns [OF assms(2) that] obtain x st'
      where "put_all (k @ [key]) ?D hint w0 st = (Return x, st')"
      by blast
    then show ?thesis unfolding eq by (simp add: andThen_def ret_def del: dispatch.simps)
  qed
  from eq noerr ret show ?thesis by blast
qed

theorem SafePut_plain_chain_witness:
  "PrefixedWriter_SafePut (dispatch (Suc 0) (store_objects plain_caps))
     (PrefixedWriter [''a''] (Obj 0)) ''b'' TypeMap abx_store =
   (Return (Obj 2, None), abx_store) \<and>
   PrefixedWriter_SafePut (dispatch (Suc 0) (store_objects plain_caps))
     (PrefixedWriter [''a''] (Obj 0)) ''q'' TypeMap abx_store =
   (Return (VNil, None), abx_store) \<and>
   (\<forall>x e st'. PrefixedWriter_SafePut (dispatch (Suc 0) (store_objects plain_caps))
     (PrefixedWriter [''q''] (Obj 0)) ''y'' TypeMap abx_store \<noteq> (Return (x, Some e), st'))"
proof -
  let ?D = "dispatch (Suc 0) (store_objects plain_caps)"
  have w: "PrefixedWriter_writer (PrefixedWriter [''a''] (Obj 0)) = (Obj 0, [''a''])"
    and wq: "PrefixedWriter_writer (PrefixedWriter [''q''] (Obj 0)) = (Obj 0, [''q''])"
    by (simp_all add: run)
  have pb: "plain_chain ([''a''] @ [''b'']) ?D TypeMap (Obj 0) abx_store"
    and nb: "nonnil_chain ([''a''] @ [''b'']) ?D TypeMap (Obj 0) abx_store"
    and ab: "put_all ([''a''] @ [''b'']) ?D TypeMap (Obj 0) abx_store =
      (Return (Obj 2), abx_store)"
    by (simp_all add: run)
  have pq: "plain_chain ([''a''] @ [''q'']) ?D TypeMap (Obj 0) abx_store"
    and nq: "nonnil_chain ([''a''] @ [''q'']) ?D TypeMap (Obj 0) abx_store"
    and aq: "put_all ([''a''] @ [''q'']) ?D TypeMap (Obj 0) abx_store =
      (Return VNil, abx_store)"
    by (simp_all add: run)
  have py: "plain_chain ([''q''] @ [''y'']) ?D TypeMap (Obj 0) abx_store"
    by (simp add: run)
  have 1: "PrefixedWriter_SafePut ?D (PrefixedWriter [''a''] (Obj 0)) ''b'' TypeMap abx_store =
      (Return (Obj 2, None), abx_store)"
  proof -
    from SafePut_plain_chain [OF w pb] nb obtain x st'
      where a: "PrefixedWriter_SafePut ?D (PrefixedWriter [''a''] (Obj 0)) ''b'' TypeMap
          abx_store = (Return (x, None), st')"
        and b: "put_all ([''a''] @ [''b'']) ?D TypeMap (Obj 0) abx_store = (Return x, st')"
      by blast
    from b [unfolded ab] have "x = Obj 2" and "st' = abx_store" by simp_all
    with a show ?thesis by (simp only:)
  qed
  have 2: "PrefixedWriter_SafePut ?D (PrefixedWriter [''a''] (Obj 0)) ''q'' TypeMap abx_store =
      (Return (VNil, None), abx_store)"
  proof -
    from SafePut_plain_chain [OF w pq] nq obtain x st'
      where a: "PrefixedWriter_SafePut ?D (PrefixedWriter [''a''] (Obj 0)) ''q'' TypeMap
          abx_store = (Return (x, None), st')"
        and b: "put_all ([''a''] @ [''q'']) ?D TypeMap (Obj 0) abx_store = (Return x, st')"
      by blast
    from b [unfolded aq] have "x = VNil" and "st' = abx_store" by simp_all
    with a show ?thesis by (simp only:)
  qed
  from SafePut_plain_chain [OF wq py]
  have 3: "\<forall>x e st'. PrefixedWriter_SafePut ?D (PrefixedWriter [''q''] (Obj 0)) ''y'' TypeMap
      abx_store \<noteq> (Return (x, Some e), st')"
    by blast
  from 1 2 3 show ?thesis by blast
qed

text \<open>
  The claim as stated fails where a \<^verbatim>\<open>Put\<close> in the middle of the chain returns nil:
  flattening succeeds, no writer of the chain is a SafeWriter, the first \<^verbatim>\<open>Put\<close>
  returns nil, and the next \<^verbatim>\<open>Put\<close> is called on nil: the call panics, and
  \<^verbatim>\<open>SafePut\<close> returns nothing.
\<close>

theorem SafePut_nil_subwriter_panics:
  "PrefixedWriter_writer (PrefixedWriter [''q''] (Obj 0)) = (Obj 0, [''q'']) \<and>
   \<not> implements (dispatch 2 (store_objects plain_caps)) SafeWriter (Obj 0) \<and>
   callPut (dispatch 2 (store_objects plain_caps)) (Obj 0) ''q'' TypeMap abx_store =
     (Return VNil, abx_store) \<and>
   \<not> implements (dispatch 2 (store_objects plain_caps)) SafeWriter VNil \<and>
   PrefixedWriter_SafePut (dispatch 2 (store_objects plain_caps))
     (PrefixedWriter [''q''] (Obj 0)) ''y'' TypeMap abx_store = (Panic, abx_store)"
  by (simp add: run)

section \<open>Nested prefix wrappers\<close>

text \<open>
  The read operations of \<^verbatim>\<open>PrefixedReader\<close> do not call \<^verbatim>\<open>reader\<close>: a wrapper around
  a wrapper works by delegation, the outer walk calling \<^verbatim>\<open>SafeGet\<close> of the inner
  wrapper. A call that returns with \<open>d\<close> stack frames returns the same with more.
\<close>

lemma implements_has: "has D' = has D \<Longrightarrow> implements D' c v = implements D c v"
  by (cases v) simp_all

lemma lookup_mono:
  assumes "reads_le D D'" and "fst (lookup D r k st) \<noteq> Overflow"
  shows "lookup D' r k st = lookup D r k st"
proof -
  from assms(1) have h: "has D' = has D" by (simp add: reads_le_def)
  show ?thesis
  proof (cases "implements D SafeReader r")
    case True
    with assms(2) have "fst (callSafeGet D r k st) \<noteq> Overflow"
      by (auto simp: lookup_def andThen_def split: prod.splits outcome.splits)
    with assms(1) have "callSafeGet D' r k st = callSafeGet D r k st"
      by (simp add: reads_le_def)
    with True show ?thesis
      by (simp add: lookup_def implements_has [OF h] andThen_def)
  next
    case False
    with assms(2) have "fst (callGet D r k st) \<noteq> Overflow"
      by (auto simp: lookup_def andThen_def split: prod.splits outcome.splits)
    with assms(1) have "callGet D' r k st = callGet D r k st"
      by (simp add: reads_le_def)
    with False show ?thesis
      by (simp add: lookup_def implements_has [OF h] andThen_def)
  qed
qed

lemma base_range_mono:
  assumes le: "reads_le D D'"
  shows "fst (base_range xs D op K i r st) \<noteq> Overflow \<Longrightarrow>
         base_range xs D' op K i r st = base_range xs D op K i r st"
proof (induction xs arbitrary: i r st)
  case Nil
  show ?case by simp
next
  case (Cons x xs)
  from le have h: "has D' = has D" by (simp add: reads_le_def)
  obtain out st1 where l: "lookup D r x st = (out, st1)" by (cases "lookup D r x st")
  with Cons.prems have "fst (lookup D r x st) \<noteq> Overflow"
    by (auto simp: base_range_Cons andThen_def simp del: base_range.simps)
  from lookup_mono [OF le this] l have l': "lookup D' r x st = (out, st1)" by simp
  show ?case
  proof (cases out)
    case (Return y)
    show ?thesis
    proof (cases y)
      case (Inl e)
      with l l' Return show ?thesis
        by (simp add: base_range_Cons andThen_def del: base_range.simps)
    next
      case (Inr v)
      show ?thesis
      proof (cases "implements D Reader v")
        case True
        with Cons.prems l Return Inr have "fst (base_range xs D op K (i + 1) v st1) \<noteq> Overflow"
          by (simp add: base_range_Cons andThen_def del: base_range.simps)
        from Cons.IH [OF this] l l' Return Inr True show ?thesis
          by (simp add: base_range_Cons andThen_def implements_has [OF h] del: base_range.simps)
      next
        case False
        with l l' Return Inr show ?thesis
          by (simp add: base_range_Cons andThen_def implements_has [OF h] del: base_range.simps)
      qed
    qed
  qed (use l l' in \<open>simp_all add: base_range_Cons andThen_def del: base_range.simps\<close>)
qed

lemma base_mono:
  "reads_le D D' \<Longrightarrow> fst (PrefixedReader_base D op pr st) \<noteq> Overflow \<Longrightarrow>
   PrefixedReader_base D' op pr st = PrefixedReader_base D op pr st"
  by (simp add: PrefixedReader_base_def base_range_mono)

lemma SafeGet_mono:
  assumes le: "reads_le D D'" and ov: "fst (PrefixedReader_SafeGet D pr key st) \<noteq> Overflow"
  shows "PrefixedReader_SafeGet D' pr key st = PrefixedReader_SafeGet D pr key st"
proof -
  obtain out st1 where b: "PrefixedReader_base D ''Get'' pr st = (out, st1)"
    by (cases "PrefixedReader_base D ''Get'' pr st")
  with ov have "fst (PrefixedReader_base D ''Get'' pr st) \<noteq> Overflow"
    by (auto simp: SafeGet_lookup andThen_def)
  from base_mono [OF le this] b have b': "PrefixedReader_base D' ''Get'' pr st = (out, st1)"
    by simp
  show ?thesis
  proof (cases out)
    case (Return y)
    obtain r err where y: "y = (r, err)" by (cases y)
    show ?thesis
    proof (cases err)
      case None
      with ov b Return y have "fst (lookup D r key st1) \<noteq> Overflow"
        by (auto simp: SafeGet_lookup andThen_def split: prod.splits outcome.splits)
      from lookup_mono [OF le this] b b' Return y None show ?thesis
        by (simp add: SafeGet_lookup andThen_def)
    next
      case (Some e)
      with b b' Return y show ?thesis by (simp add: SafeGet_lookup andThen_def)
    qed
  qed (use b b' in \<open>simp_all add: SafeGet_lookup andThen_def\<close>)
qed

lemma Get_mono:
  assumes le: "reads_le D D'" and ov: "fst (PrefixedReader_Get D pr key st) \<noteq> Overflow"
  shows "PrefixedReader_Get D' pr key st = PrefixedReader_Get D pr key st"
proof -
  from ov have "fst (PrefixedReader_SafeGet D pr key st) \<noteq> Overflow"
    by (auto simp: PrefixedReader_Get_def andThen_def split: prod.splits outcome.splits)
  from SafeGet_mono [OF le this] show ?thesis
    by (simp add: PrefixedReader_Get_def andThen_def)
qed

lemma List_mono:
  assumes le: "reads_le D D'" and ov: "fst (PrefixedReader_List D pr st) \<noteq> Overflow"
  shows "PrefixedReader_List D' pr st = PrefixedReader_List D pr st"
proof -
  obtain out st1 where b: "PrefixedReader_base D ''List'' pr st = (out, st1)"
    by (cases "PrefixedReader_base D ''List'' pr st")
  with ov have "fst (PrefixedReader_base D ''List'' pr st) \<noteq> Overflow"
    by (auto simp: PrefixedReader_List_def andThen_def)
  from base_mono [OF le this] b have b': "PrefixedReader_base D' ''List'' pr st = (out, st1)"
    by simp
  show ?thesis
  proof (cases out)
    case (Return y)
    obtain r err where y: "y = (r, err)" by (cases y)
    show ?thesis
    proof (cases err)
      case None
      with ov b Return y have "fst (callList D r st1) \<noteq> Overflow"
        by (simp add: PrefixedReader_List_def andThen_def)
      with le have "callList D' r st1 = callList D r st1" by (simp add: reads_le_def)
      with b b' Return y None show ?thesis
        by (simp add: PrefixedReader_List_def andThen_def)
    next
      case (Some e)
      with b b' Return y show ?thesis by (simp add: PrefixedReader_List_def andThen_def)
    qed
  qed (use b b' in \<open>simp_all add: PrefixedReader_List_def andThen_def\<close>)
qed

lemma dispatch_mono: "reads_le (dispatch d E) (dispatch (Suc d) E)"
proof (induction d)
  case 0
  show ?case by (simp add: reads_le_def overflow_def)
next
  case (Suc d)
  have g: "callGet (dispatch (Suc (Suc d)) E) v k st = callGet (dispatch (Suc d) E) v k st"
    if "fst (callGet (dispatch (Suc d) E) v k st) \<noteq> Overflow" for v k st
    using that Get_mono [OF Suc] by (cases v) simp_all
  have s: "callSafeGet (dispatch (Suc (Suc d)) E) v k st = callSafeGet (dispatch (Suc d) E) v k st"
    if "fst (callSafeGet (dispatch (Suc d) E) v k st) \<noteq> Overflow" for v k st
    using that SafeGet_mono [OF Suc] by (cases v) simp_all
  have l: "callList (dispatch (Suc (Suc d)) E) v st = callList (dispatch (Suc d) E) v st"
    if "fst (callList (dispatch (Suc d) E) v st) \<noteq> Overflow" for v st
    using that List_mono [OF Suc] by (cases v) simp_all
  have "has (dispatch (Suc (Suc d)) E) = has (dispatch (Suc d) E)" by simp
  with g s l show ?case unfolding reads_le_def by blast
qed


lemma andThen_mono:
  assumes "fst (andThen m f st) \<noteq> Overflow"
    and "fst (m st) \<noteq> Overflow \<Longrightarrow> m' st = m st"
    and "\<And>x st1. m st = (Return x, st1) \<Longrightarrow> fst (f x st1) \<noteq> Overflow \<Longrightarrow> f' x st1 = f x st1"
  shows "andThen m' f' st = andThen m f st"
proof (cases "m st")
  case (Pair out st1)
  show ?thesis
  proof (cases out)
    case (Return x)
    with Pair assms(2) have m': "m' st = (Return x, st1)" by simp
    from assms(1) Pair Return have "fst (f x st1) \<noteq> Overflow" by (simp add: andThen_def)
    from assms(3) [OF _ this] Pair Return m' show ?thesis by (simp add: andThen_def)
  next
    case Panic
    with Pair assms(2) show ?thesis by (simp add: andThen_def)
  next
    case Overflow
    with Pair assms(1) show ?thesis by (simp add: andThen_def)
  qed
qed

lemma andThen_case_sum:
  "andThen (case x of Inl e \<Rightarrow> f e | Inr v \<Rightarrow> g v) h =
     (case x of Inl e \<Rightarrow> andThen (f e) h | Inr v \<Rightarrow> andThen (g v) h)"
  by (cases x) simp_all

lemma andThen_case_option:
  "andThen (case x of None \<Rightarrow> f | Some e \<Rightarrow> g e) h =
     (case x of None \<Rightarrow> andThen f h | Some e \<Rightarrow> andThen (g e) h)"
  by (cases x) simp_all

lemma andThen_if:
  "andThen (if c then m1 else m2) h = (if c then andThen m1 h else andThen m2 h)"
  by simp

lemmas walk_normal =
  PrefixedReader_Get_def SafeGet_lookup PrefixedReader_List_def PrefixedReader_base_def
  base_range_Cons andThen_case_sum andThen_case_option andThen_if

lemma flat_Get:
  "PrefixedReader_Get D (PrefixedReader [a, b] r0) key =
     walk2 D a b r0 (VNil, False) (last_get D key)"
  by (simp add: walk_normal walk2_def last_get_def del: base_range.simps(2) cong: sum.case_cong if_cong option.case_cong)

lemma flat_List:
  "PrefixedReader_List D (PrefixedReader [a, b] r0) = walk2 D a b r0 [] (callList D)"
  by (simp add: walk_normal walk2_def del: base_range.simps(2) cong: sum.case_cong if_cong option.case_cong)

lemma lookup_wrapper:
  "lookup (dispatch (Suc d) E) (VPR pr) k =
     andThen (PrefixedReader_SafeGet (dispatch d E) pr k) (\<lambda>(v, err).
       case err of Some e \<Rightarrow> ret (Inl e) | None \<Rightarrow> ret (Inr v))"
  by (simp add: lookup_def)

lemma implements_dispatch:
  "implements (dispatch (Suc d) E) c v = implements (dispatch d E) c v"
  by (cases d) (simp_all add: implements_has)

lemma nested_Get:
  "PrefixedReader_Get (dispatch (Suc d) E) (PrefixedReader [b] (VPR (PrefixedReader [a] r0))) key =
     walk2 (dispatch d E) a b r0 (VNil, False) (last_get (dispatch (Suc d) E) key)"
  by (simp add: walk_normal lookup_wrapper implements_dispatch walk2_def last_get_def
      del: base_range.simps(2) dispatch.simps cong: sum.case_cong if_cong option.case_cong)

lemma nested_List:
  "PrefixedReader_List (dispatch (Suc d) E) (PrefixedReader [b] (VPR (PrefixedReader [a] r0))) =
     walk2 (dispatch d E) a b r0 [] (callList (dispatch (Suc d) E))"
  by (simp add: walk_normal lookup_wrapper implements_dispatch walk2_def
      del: base_range.simps(2) dispatch.simps cong: sum.case_cong if_cong option.case_cong)


lemma reads_le_refl: "reads_le D D"
  by (simp add: reads_le_def)

lemma last_get_mono:
  assumes "reads_le D D'" and "fst (last_get D key v s) \<noteq> Overflow"
  shows "last_get D' key v s = last_get D key v s"
proof -
  from assms(2) have "fst (lookup D v key s) \<noteq> Overflow"
    by (auto simp: last_get_def andThen_def split: prod.splits outcome.splits)
  from lookup_mono [OF assms(1) this] show ?thesis
    by (simp add: last_get_def andThen_def)
qed

lemma walk2_mono:
  assumes le: "reads_le D D'"
    and fin: "\<And>v s. fst (fin v s) \<noteq> Overflow \<Longrightarrow> fin' v s = fin v s"
    and ov: "fst (walk2 D a b r0 fail fin st) \<noteq> Overflow"
  shows "walk2 D' a b r0 fail fin' st = walk2 D a b r0 fail fin st"
proof -
  from le have h: "has D' = has D" by (simp add: reads_le_def)
  let ?k2 = "\<lambda>D fin y. case (y :: val error + val) of
      Inl e \<Rightarrow> ret fail
    | Inr v \<Rightarrow> if \<not> implements D Reader v then ret fail else fin v"
  let ?k1 = "\<lambda>D fin x. case (x :: val error + val) of
      Inl e \<Rightarrow> ret fail
    | Inr ra \<Rightarrow>
        if \<not> implements D Reader ra then ret fail else andThen (lookup D ra b) (?k2 D fin)"
  have k2: "?k2 D' fin' y s = ?k2 D fin y s" if "fst (?k2 D fin y s) \<noteq> Overflow"
    for y :: "val error + val" and s
    using that fin by (cases y) (auto simp: implements_has [OF h] split: if_splits)
  have k1: "?k1 D' fin' x s = ?k1 D fin x s" if ov1: "fst (?k1 D fin x s) \<noteq> Overflow"
    for x :: "val error + val" and s
  proof (cases x)
    case (Inl e)
    then show ?thesis by simp
  next
    case (Inr ra)
    show ?thesis
    proof (cases "implements D Reader ra")
      case False
      with Inr show ?thesis by (simp add: implements_has [OF h])
    next
      case True
      with ov1 Inr have o: "fst (andThen (lookup D ra b) (?k2 D fin) s) \<noteq> Overflow"
        by simp
      have "andThen (lookup D' ra b) (?k2 D' fin') s = andThen (lookup D ra b) (?k2 D fin) s"
      proof (rule andThen_mono [OF o])
        assume "fst (lookup D ra b s) \<noteq> Overflow"
        then show "lookup D' ra b s = lookup D ra b s" by (rule lookup_mono [OF le])
      next
        fix y s1
        assume "fst (?k2 D fin y s1) \<noteq> Overflow"
        then show "?k2 D' fin' y s1 = ?k2 D fin y s1" by (rule k2)
      qed
      moreover from True have "implements D' Reader ra" by (simp add: implements_has [OF h])
      ultimately show ?thesis using True Inr by simp
    qed
  qed
  from ov have o: "fst (andThen (lookup D r0 a) (?k1 D fin) st) \<noteq> Overflow"
    by (simp add: walk2_def)
  have "andThen (lookup D' r0 a) (?k1 D' fin') st = andThen (lookup D r0 a) (?k1 D fin) st"
  proof (rule andThen_mono [OF o])
    assume "fst (lookup D r0 a st) \<noteq> Overflow"
    then show "lookup D' r0 a st = lookup D r0 a st" by (rule lookup_mono [OF le])
  next
    fix x s1
    assume "fst (?k1 D fin x s1) \<noteq> Overflow"
    then show "?k1 D' fin' x s1 = ?k1 D fin x s1" by (rule k1)
  qed
  then show ?thesis by (simp add: walk2_def)
qed

lemma Get_found:
  "PrefixedReader_Get D pr key st = (Return (v, True), s') \<longleftrightarrow>
   PrefixedReader_SafeGet D pr key st = (Return (v, None), s')"
  by (auto simp: PrefixedReader_Get_def andThen_def ret_def
      split: prod.splits outcome.splits)

lemma Get_not_found:
  "PrefixedReader_Get D pr key st = (Return (v, False), s') \<longleftrightarrow>
   (\<exists>e. PrefixedReader_SafeGet D pr key st = (Return (v, Some e), s'))"
  by (auto simp: PrefixedReader_Get_def andThen_def ret_def
      split: prod.splits outcome.splits)

lemma nested_Get_List:
  "(fst (PrefixedReader_Get (dispatch d E) (PrefixedReader [a, b] r0) key st) \<noteq> Overflow \<longrightarrow>
      PrefixedReader_Get (dispatch (Suc d) E)
        (PrefixedReader [b] (VPR (PrefixedReader [a] r0))) key st =
      PrefixedReader_Get (dispatch d E) (PrefixedReader [a, b] r0) key st) \<and>
   (fst (PrefixedReader_List (dispatch d E) (PrefixedReader [a, b] r0) st) \<noteq> Overflow \<longrightarrow>
      PrefixedReader_List (dispatch (Suc d) E)
        (PrefixedReader [b] (VPR (PrefixedReader [a] r0))) st =
      PrefixedReader_List (dispatch d E) (PrefixedReader [a, b] r0) st) \<and>
   (fst (PrefixedReader_Get (dispatch n E)
        (PrefixedReader [b] (VPR (PrefixedReader [a] r0))) key st) \<noteq> Overflow \<longrightarrow>
      PrefixedReader_Get (dispatch n E) (PrefixedReader [a, b] r0) key st =
      PrefixedReader_Get (dispatch n E)
        (PrefixedReader [b] (VPR (PrefixedReader [a] r0))) key st) \<and>
   (fst (PrefixedReader_List (dispatch n E)
        (PrefixedReader [b] (VPR (PrefixedReader [a] r0))) st) \<noteq> Overflow \<longrightarrow>
      PrefixedReader_List (dispatch n E) (PrefixedReader [a, b] r0) st =
      PrefixedReader_List (dispatch n E)
        (PrefixedReader [b] (VPR (PrefixedReader [a] r0))) st)"
proof (intro conjI impI)
  assume "fst (PrefixedReader_Get (dispatch d E) (PrefixedReader [a, b] r0) key st) \<noteq> Overflow"
  then have o: "fst (walk2 (dispatch d E) a b r0 (VNil, False) (last_get (dispatch d E) key) st)
      \<noteq> Overflow"
    unfolding flat_Get .
  show "PrefixedReader_Get (dispatch (Suc d) E)
        (PrefixedReader [b] (VPR (PrefixedReader [a] r0))) key st =
      PrefixedReader_Get (dispatch d E) (PrefixedReader [a, b] r0) key st"
    unfolding flat_Get nested_Get
    by (rule walk2_mono [OF reads_le_refl last_get_mono [OF dispatch_mono] o])
next
  assume "fst (PrefixedReader_List (dispatch d E) (PrefixedReader [a, b] r0) st) \<noteq> Overflow"
  then have o: "fst (walk2 (dispatch d E) a b r0 [] (callList (dispatch d E)) st) \<noteq> Overflow"
    unfolding flat_List .
  have l: "callList (dispatch (Suc d) E) v s = callList (dispatch d E) v s"
    if "fst (callList (dispatch d E) v s) \<noteq> Overflow" for v s
    using that dispatch_mono [of d E] unfolding reads_le_def by blast
  show "PrefixedReader_List (dispatch (Suc d) E)
        (PrefixedReader [b] (VPR (PrefixedReader [a] r0))) st =
      PrefixedReader_List (dispatch d E) (PrefixedReader [a, b] r0) st"
    unfolding flat_List nested_List
    by (rule walk2_mono [OF reads_le_refl l o])
next
  assume ov: "fst (PrefixedReader_Get (dispatch n E)
        (PrefixedReader [b] (VPR (PrefixedReader [a] r0))) key st) \<noteq> Overflow"
  show "PrefixedReader_Get (dispatch n E) (PrefixedReader [a, b] r0) key st =
      PrefixedReader_Get (dispatch n E)
        (PrefixedReader [b] (VPR (PrefixedReader [a] r0))) key st"
  proof (cases n)
    case 0
    with ov show ?thesis
      by (simp add: walk_normal lookup_def andThen_def overflow_def)
  next
    case (Suc m)
    from ov
    have o: "fst (walk2 (dispatch m E) a b r0 (VNil, False)
        (last_get (dispatch (Suc m) E) key) st) \<noteq> Overflow"
      unfolding Suc nested_Get .
    show ?thesis
      unfolding Suc flat_Get nested_Get
      by (rule walk2_mono [OF dispatch_mono _ o]) (rule refl)
  qed
next
  assume ov: "fst (PrefixedReader_List (dispatch n E)
        (PrefixedReader [b] (VPR (PrefixedReader [a] r0))) st) \<noteq> Overflow"
  show "PrefixedReader_List (dispatch n E) (PrefixedReader [a, b] r0) st =
      PrefixedReader_List (dispatch n E)
        (PrefixedReader [b] (VPR (PrefixedReader [a] r0))) st"
  proof (cases n)
    case 0
    with ov show ?thesis
      by (simp add: walk_normal lookup_def andThen_def overflow_def)
  next
    case (Suc m)
    from ov
    have o: "fst (walk2 (dispatch m E) a b r0 [] (callList (dispatch (Suc m) E)) st) \<noteq> Overflow"
      unfolding Suc nested_List .
    show ?thesis
      unfolding Suc flat_List nested_List
      by (rule walk2_mono [OF dispatch_mono _ o]) (rule refl)
  qed
qed

text \<open>
  C2, as amended. A reader with prefix \<open>[a]\<close> over a base, wrapped again with the
  prefix \<open>[b]\<close>, reads like the single wrapper with prefix \<open>[a, b]\<close> over the base (the
  inner prefix first): whenever the single wrapper's \<^verbatim>\<open>Get\<close> or \<^verbatim>\<open>List\<close> returns
  with \<open>d\<close> stack frames, the nested wrapper returns the same result and state with one frame
  more; and whenever the nested wrapper returns, the single wrapper returns the same at the
  same depth. When \<^verbatim>\<open>SafeGet\<close> of the single wrapper returns a value with a nil error,
  \<^verbatim>\<open>SafeGet\<close> of the nested wrapper returns the same; when it returns an error, the
  nested wrapper returns an error too, which need not be the same one.
\<close>

theorem nested_prefix_reads:
  "(fst (PrefixedReader_Get (dispatch d E) (PrefixedReader [a, b] r0) key st) \<noteq> Overflow \<longrightarrow>
      PrefixedReader_Get (dispatch (Suc d) E)
        (PrefixedReader [b] (VPR (PrefixedReader [a] r0))) key st =
      PrefixedReader_Get (dispatch d E) (PrefixedReader [a, b] r0) key st) \<and>
   (fst (PrefixedReader_List (dispatch d E) (PrefixedReader [a, b] r0) st) \<noteq> Overflow \<longrightarrow>
      PrefixedReader_List (dispatch (Suc d) E)
        (PrefixedReader [b] (VPR (PrefixedReader [a] r0))) st =
      PrefixedReader_List (dispatch d E) (PrefixedReader [a, b] r0) st) \<and>
   (fst (PrefixedReader_Get (dispatch n E)
        (PrefixedReader [b] (VPR (PrefixedReader [a] r0))) key st) \<noteq> Overflow \<longrightarrow>
      PrefixedReader_Get (dispatch n E) (PrefixedReader [a, b] r0) key st =
      PrefixedReader_Get (dispatch n E)
        (PrefixedReader [b] (VPR (PrefixedReader [a] r0))) key st) \<and>
   (fst (PrefixedReader_List (dispatch n E)
        (PrefixedReader [b] (VPR (PrefixedReader [a] r0))) st) \<noteq> Overflow \<longrightarrow>
      PrefixedReader_List (dispatch n E) (PrefixedReader [a, b] r0) st =
      PrefixedReader_List (dispatch n E)
        (PrefixedReader [b] (VPR (PrefixedReader [a] r0))) st) \<and>
   (PrefixedReader_SafeGet (dispatch d E) (PrefixedReader [a, b] r0) key st =
        (Return (v, None), s') \<longrightarrow>
      PrefixedReader_SafeGet (dispatch (Suc d) E)
        (PrefixedReader [b] (VPR (PrefixedReader [a] r0))) key st = (Return (v, None), s')) \<and>
   (PrefixedReader_SafeGet (dispatch d E) (PrefixedReader [a, b] r0) key st =
        (Return (v, Some e), s') \<longrightarrow>
      (\<exists>e'. PrefixedReader_SafeGet (dispatch (Suc d) E)
        (PrefixedReader [b] (VPR (PrefixedReader [a] r0))) key st = (Return (v, Some e'), s')))"
proof -
  let ?F = "PrefixedReader [a, b] r0"
  let ?N = "PrefixedReader [b] (VPR (PrefixedReader [a] r0))"
  note gl = nested_Get_List [of d E a b r0 key st n]
  have found: "PrefixedReader_SafeGet (dispatch (Suc d) E) ?N key st = (Return (v, None), s')"
    if h: "PrefixedReader_SafeGet (dispatch d E) ?F key st = (Return (v, None), s')"
  proof -
    from h have g: "PrefixedReader_Get (dispatch d E) ?F key st = (Return (v, True), s')"
      by (simp only: Get_found)
    then have "fst (PrefixedReader_Get (dispatch d E) ?F key st) \<noteq> Overflow" by simp
    with gl g have "PrefixedReader_Get (dispatch (Suc d) E) ?N key st = (Return (v, True), s')"
      by metis
    then show ?thesis by (simp only: Get_found)
  qed
  have failed: "\<exists>e'. PrefixedReader_SafeGet (dispatch (Suc d) E) ?N key st =
      (Return (v, Some e'), s')"
    if h: "PrefixedReader_SafeGet (dispatch d E) ?F key st = (Return (v, Some e), s')"
  proof -
    from h have g: "PrefixedReader_Get (dispatch d E) ?F key st = (Return (v, False), s')"
      unfolding Get_not_found by blast
    then have "fst (PrefixedReader_Get (dispatch d E) ?F key st) \<noteq> Overflow" by simp
    with gl g have "PrefixedReader_Get (dispatch (Suc d) E) ?N key st = (Return (v, False), s')"
      by metis
    then show ?thesis by (simp only: Get_not_found)
  qed
  from gl found failed show ?thesis by blast
qed

theorem nested_prefix_reads_witness:
  "PrefixedReader_Get (dispatch (Suc 2) (store_objects plain_caps))
     (PrefixedReader [''b''] (VPR (PrefixedReader [''a''] (Obj 0)))) ''x'' abx_store =
   (Return (Scalar 1, True), abx_store) \<and>
   PrefixedReader_Get (dispatch (Suc 2) (store_objects safe_caps))
     (PrefixedReader [''b''] (VPR (PrefixedReader [''a''] (Obj 0)))) ''y'' abx_store =
   (Return (VNil, False), abx_store) \<and>
   PrefixedReader_List (dispatch (Suc 2) (store_objects plain_caps))
     (PrefixedReader [''b''] (VPR (PrefixedReader [''a''] (Obj 0)))) abx_store =
   (Return [''x''], abx_store)"
proof -
  let ?P = "store_objects plain_caps"
  let ?S = "store_objects safe_caps"
  have g: "PrefixedReader_Get (dispatch 2 ?P) (PrefixedReader [''a'', ''b''] (Obj 0)) ''x''
      abx_store = (Return (Scalar 1, True), abx_store)"
    by (simp add: run)
  have m: "PrefixedReader_Get (dispatch 2 ?S) (PrefixedReader [''a'', ''b''] (Obj 0)) ''y''
      abx_store = (Return (VNil, False), abx_store)"
    by (simp add: run)
  have l: "PrefixedReader_List (dispatch 2 ?P) (PrefixedReader [''a'', ''b''] (Obj 0))
      abx_store = (Return [''x''], abx_store)"
    by (simp add: run)
  show ?thesis
    using nested_prefix_reads [of 2 ?P "''a''" "''b''" "Obj 0" "''x''" abx_store 0 VNil abx_store
        ErrNotFound]
      nested_prefix_reads [of 2 ?S "''a''" "''b''" "Obj 0" "''y''" abx_store 0 VNil abx_store
        ErrNotFound]
    by (simp add: g m l)
qed

text \<open>
  The claim as stated, with the prefix \<open>[b, a]\<close>, fails on the store
  \<open>a \<rightarrow> {b \<rightarrow> {x \<rightarrow> 1}}\<close>: the nested wrapper finds \<open>x\<close> and lists it, the wrapper with
  prefix \<open>[b, a]\<close> finds nothing.
\<close>

theorem nested_prefix_order_counterexample:
  "PrefixedReader_Get (dispatch 2 (store_objects plain_caps))
     (PrefixedReader [''b''] (VPR (PrefixedReader [''a''] (Obj 0)))) ''x'' abx_store =
   (Return (Scalar 1, True), abx_store) \<and>
   PrefixedReader_Get (dispatch 2 (store_objects plain_caps))
     (PrefixedReader [''b'', ''a''] (Obj 0)) ''x'' abx_store =
   (Return (VNil, False), abx_store) \<and>
   PrefixedReader_List (dispatch 2 (store_objects plain_caps))
     (PrefixedReader [''b''] (VPR (PrefixedReader [''a''] (Obj 0)))) abx_store =
   (Return [''x''], abx_store) \<and>
   PrefixedReader_List (dispatch 2 (store_objects plain_caps))
     (PrefixedReader [''b'', ''a''] (Obj 0)) abx_store =
   (Return [], abx_store)"
  by (simp add: run)

text \<open>
  The errors of \<^verbatim>\<open>SafeGet\<close> differ between the nested wrapper and the single one: each
  reports a path from its own prefix.
\<close>

lemma nested_prefix_errors_differ:
  "PrefixedReader_SafeGet (dispatch 2 (store_objects plain_caps))
     (PrefixedReader [''b''] (VPR (PrefixedReader [''a''] (Obj 0)))) ''y'' abx_store =
   (Return (VNil, Some (Error ''Get'' [''b'', ''y''] (Obj 2) VNil ErrNotFound)), abx_store) \<and>
   PrefixedReader_SafeGet (dispatch 2 (store_objects plain_caps))
     (PrefixedReader [''a'', ''b''] (Obj 0)) ''y'' abx_store =
   (Return (VNil, Some (Error ''Get'' [''a'', ''b'', ''y''] (Obj 2) VNil ErrNotFound)),
    abx_store)"
  by (simp add: run)

section \<open>Map.SafeGet\<close>

lemma after_simps [simp]:
  "after (Return x) f = f x" "after Panic f = Panic" "after Overflow f = Overflow"
  by (simp_all add: after_def)

text \<open>
  What \<^verbatim>\<open>Map.SafeGet\<close> does for a key that is absent, and for one that is present in a
  map that is not read-only: the absent key panics in \<^verbatim>\<open>IsZero\<close>; the present key is
  reported as not found when its value is the zero value of its type, and returned otherwise.
\<close>

lemma Map_SafeGet_absent:
  "elems m key = None \<Longrightarrow> Map_SafeGet tm m key = Panic"
  by (simp add: Map_SafeGet_def MapIndex_def)

lemma Map_SafeGet_present:
  assumes "stringKey m" and "\<not> readOnly m" and "elems m key = Some g"
  shows "Map_SafeGet tm m key =
     (if IsZero (Value False g) = Return True
      then Return (VNil, Some (Error ''Get'' [key] None None ErrNotFound))
      else Return (tm g, None))"
  using assms by (cases g) (simp_all add: Map_SafeGet_def MapIndex_def)

text \<open>
  C9. The claim does not hold of \<^verbatim>\<open>Map.SafeGet\<close>: in the map \<open>{a \<rightarrow> 0}\<close> the key \<open>a\<close> is
  present and \<^verbatim>\<open>SafeGet\<close> returns the not-found error for it, since the test for
  absence is \<^verbatim>\<open>IsZero\<close>; and for the absent key \<open>b\<close> the same test is called on the zero
  Value and panics, so no not-found error is returned.
\<close>

theorem Map_SafeGet_zero_and_absent:
  "Map_SafeGet tm \<lparr>stringKey = True, readOnly = False, elems = [''a'' \<mapsto> GoInt 0]\<rparr> ''a'' =
     Return (VNil, Some (Error ''Get'' [''a''] None None ErrNotFound)) \<and>
   Map_SafeGet tm \<lparr>stringKey = True, readOnly = False, elems = [''a'' \<mapsto> GoInt 0]\<rparr> ''b'' =
     Panic"
  by (simp add: Map_SafeGet_def MapIndex_def)

end
